theory Spec2Isabelle
  imports Main "HOL-Library.Word"
begin

section \<open>The generated runtime: the virtual file system\<close>

text \<open>
  The runtime is the Go text held in \<open>tmplHeader\<close> of \<open>main.go\<close>. Go's \<open>int64\<close> is a
  64-bit word read as two's complement; Go's \<open>int\<close> is taken at its 64-bit width, so the
  conversions \<open>int(f.offset)\<close> and \<open>int64(len(...))\<close> keep every bit. Arithmetic on both
  wraps around, comparisons are signed.
\<close>

type_synonym byte = "8 word"
type_synonym int64 = "64 word"
type_synonym go_int = "64 word"

text \<open>\<open>const maxSize = int64(math.MaxInt32)\<close>\<close>

definition maxSize :: int64 where
  "maxSize = 2147483647"

text \<open>
  \<open>type file struct { contents []byte; version string }\<close> of the runtime
  (\<open>file\<close> is a reserved word here).
\<close>

record file_entry =
  contents :: "byte list"
  version :: string

text \<open>
  \<open>type File struct { f *file; path string; offset int64 }\<close>. The entry behind the
  pointer is never written after the table is built, so the handle holds it by value.
\<close>

record File =
  File_f :: file_entry
  File_path :: string
  File_offset :: int64

text \<open>
  The error values of the runtime, one constructor for each \<open>fmt.Errorf\<close> format with
  the values it prints, and \<open>io.EOF\<close>.
\<close>

datatype error =
    FileNotFound string
  | VersionMismatch string string string
  | EOF
  | InvalidTargetOffset int64
  | InvalidSeekWhence go_int

text \<open>\<open>io.SeekStart\<close>, \<open>io.SeekCurrent\<close> and \<open>io.SeekEnd\<close>\<close>

definition SeekStart :: go_int where "SeekStart = 0"
definition SeekCurrent :: go_int where "SeekCurrent = 1"
definition SeekEnd :: go_int where "SeekEnd = 2"

text \<open>\<open>len\<close> of a slice, as a Go \<open>int\<close>.\<close>

definition len :: "'a list \<Rightarrow> go_int" where
  "len xs = of_nat (length xs)"

text \<open>
  \<open>func Open(path, version string) (*File, error)\<close>, with the table \<open>store\<close> as a
  parameter. The composite literal leaves \<open>offset\<close> at its zero value.
\<close>

definition Open :: "(string \<rightharpoonup> file_entry) \<Rightarrow> string \<Rightarrow> string \<Rightarrow> error + File" where
  "Open store p v =
     (case store p of
        None \<Rightarrow> Inl (FileNotFound p)
      | Some e \<Rightarrow>
          if v \<noteq> [] \<and> version e \<noteq> v then Inl (VersionMismatch v (version e) p)
          else Inr \<lparr>File_f = e, File_path = p, File_offset = 0\<rparr>)"

text \<open>\<open>Path\<close>, \<open>Version\<close> and \<open>Size\<close> of a handle.\<close>

definition Path :: "File \<Rightarrow> string" where
  "Path h = File_path h"

definition Version :: "File \<Rightarrow> string" where
  "Version h = version (File_f h)"

definition Size :: "File \<Rightarrow> int64" where
  "Size h = len (contents (File_f h))"

text \<open>
  The slice expression \<open>s[low:high]\<close> on a slice whose capacity is its length (the
  table's byte literals): it panics unless \<open>0 \<le> low \<le> high \<le> len(s)\<close>.
\<close>

definition slice :: "'a list \<Rightarrow> go_int \<Rightarrow> go_int \<Rightarrow> 'a list option" where
  "slice s low high =
     (if 0 \<le>s low \<and> low \<le>s high \<and> high \<le>s len s
      then Some (take (unat high - unat low) (drop (unat low) s))
      else None)"

text \<open>The builtin \<open>copy(dst, src)\<close>: the destination after the call, and the count.\<close>

definition copy :: "'a list \<Rightarrow> 'a list \<Rightarrow> 'a list \<times> nat" where
  "copy dst src =
     (let n = min (length dst) (length src) in (take n src @ drop n dst, n))"

text \<open>
  \<open>func (f *File) Read(b []byte) (int, error)\<close>. The result is \<open>None\<close> when the slice
  expression panics, and otherwise the handle and the buffer after the call with the two
  returned values.
\<close>

definition Read :: "File \<Rightarrow> byte list \<Rightarrow> (File \<times> byte list \<times> go_int \<times> error option) option" where
  "Read h b =
     (let bufLen = len b;
          available = len (contents (File_f h)) - File_offset h
      in if available = 0 then Some (h, b, 0, Some EOF)
         else
           let canRead = (if bufLen <s available then bufLen else available)
           in case slice (contents (File_f h)) (File_offset h) (File_offset h + canRead) of
                None \<Rightarrow> None
              | Some src \<Rightarrow>
                  Some (h\<lparr>File_offset := File_offset h + canRead\<rparr>,
                        fst (copy b src), canRead, None))"

text \<open>
  \<open>func (f *File) Seek(offset int64, whence int) (int64, error)\<close>: the handle after the
  call with the two returned values. The chain of tests on \<open>whence\<close> gives the new offset,
  or \<open>None\<close> in its last branch.
\<close>

definition Seek :: "File \<Rightarrow> int64 \<Rightarrow> go_int \<Rightarrow> File \<times> int64 \<times> error option" where
  "Seek h off whence =
     (if maxSize <s off then (h, 0, Some (InvalidTargetOffset off))
      else
        case (if whence = SeekStart then Some off
              else if whence = SeekEnd then Some (len (contents (File_f h)) - off)
              else if whence = SeekCurrent then Some (File_offset h + off)
              else None) of
          None \<Rightarrow> (h, 0, Some (InvalidSeekWhence whence))
        | Some newOffset \<Rightarrow>
            if maxSize <s newOffset \<or> newOffset <s 0 \<or> len (contents (File_f h)) <s newOffset
            then (h, 0, Some (InvalidTargetOffset newOffset))
            else (h\<lparr>File_offset := newOffset\<rparr>, newOffset, None))"

section \<open>The generator\<close>

subsection \<open>Paths: \<open>path\<close> and \<open>path/filepath\<close> of the Go library\<close>

text \<open>
  The generator calls \<open>path.Join\<close>, \<open>filepath.Base\<close>, \<open>filepath.Rel\<close>,
  \<open>filepath.ToSlash\<close> and \<open>filepath.Walk\<close> of Go's standard library. They are
  transcribed here from the library's algorithms for a system whose separator is \<open>/\<close>
  and which has no volume names, where \<open>filepath.Join\<close> and \<open>filepath.Clean\<close> are
  \<open>path.Join\<close> and \<open>path.Clean\<close> and \<open>filepath.ToSlash\<close> changes nothing.
\<close>

abbreviation is_sep :: "char \<Rightarrow> bool" where
  "is_sep c \<equiv> c = CHR ''/''"

abbreviation not_sep :: "char \<Rightarrow> bool" where
  "not_sep c \<equiv> c \<noteq> CHR ''/''"

text \<open>
  The backtracking of \<open>Clean\<close> over the output written so far:
  \<open>for out.w > dotdot && out.index(out.w) != '/' { out.w-- }\<close>.
\<close>

fun back_idx :: "nat \<Rightarrow> string \<Rightarrow> nat \<Rightarrow> nat" where
  "back_idx dotdot buf 0 = 0"
| "back_idx dotdot buf (Suc k) =
     (if dotdot < Suc k \<and> not_sep (buf ! Suc k) then back_idx dotdot buf k else Suc k)"

text \<open>
  The loop of \<open>Clean\<close>: \<open>buf\<close> is the output written so far, the last argument the
  input still to read.
\<close>

function clean_loop :: "bool \<Rightarrow> nat \<Rightarrow> string \<Rightarrow> string \<Rightarrow> string" where
  "clean_loop rooted dotdot buf [] = buf"
| "clean_loop rooted dotdot buf (c # cs) =
     (if is_sep c then clean_loop rooted dotdot buf cs
      else if c = CHR ''.'' \<and> (cs = [] \<or> is_sep (hd cs)) then clean_loop rooted dotdot buf cs
      else if c = CHR ''.'' \<and> cs \<noteq> [] \<and> hd cs = CHR ''.'' \<and> (tl cs = [] \<or> is_sep (hd (tl cs)))
      then (if dotdot < length buf
            then clean_loop rooted dotdot
                   (take (back_idx dotdot buf (length buf - 1)) buf) (tl cs)
            else if \<not> rooted
            then clean_loop rooted (length ((if buf \<noteq> [] then buf @ ''/'' else buf) @ ''..''))
                   ((if buf \<noteq> [] then buf @ ''/'' else buf) @ ''..'') (tl cs)
            else clean_loop rooted dotdot buf (tl cs))
      else clean_loop rooted dotdot
             ((if (rooted \<and> length buf \<noteq> 1) \<or> (\<not> rooted \<and> buf \<noteq> []) then buf @ ''/'' else buf)
                @ c # takeWhile not_sep cs)
             (dropWhile not_sep cs))"
  by pat_completeness auto
termination
  by (relation "measure (\<lambda>(rooted, dotdot, buf, rest). length rest)")
     (auto simp: less_Suc_eq_le length_dropWhile_le)

text \<open>\<open>path.Clean\<close>\<close>

definition Clean :: "string \<Rightarrow> string" where
  "Clean p =
     (if p = [] then ''.''
      else let rooted = is_sep (hd p);
               buf = (if rooted then clean_loop True 1 ''/'' (tl p) else clean_loop False 0 [] p)
           in if buf = [] then ''.'' else buf)"

text \<open>\<open>strings.Join(elems, "/")\<close>\<close>

fun join_sep :: "string list \<Rightarrow> string" where
  "join_sep [] = []"
| "join_sep [e] = e"
| "join_sep (e # es) = e @ ''/'' @ join_sep es"

text \<open>
  \<open>path.Join\<close>: the elements from the first non-empty one on, joined by slashes and
  cleaned; the empty string when every element is empty.
\<close>

definition Join :: "string list \<Rightarrow> string" where
  "Join elem =
     (if dropWhile (\<lambda>e. e = []) elem = [] then []
      else Clean (join_sep (dropWhile (\<lambda>e. e = []) elem)))"

text \<open>\<open>filepath.Base\<close>\<close>

definition Base :: "string \<Rightarrow> string" where
  "Base p =
     (if p = [] then ''.''
      else let stripped = rev (dropWhile is_sep (rev p));
               last_elem = rev (takeWhile not_sep (rev stripped))
           in if last_elem = [] then ''/'' else last_elem)"

text \<open>\<open>filepath.ToSlash\<close>\<close>

definition ToSlash :: "string \<Rightarrow> string" where
  "ToSlash p = p"

text \<open>
  The loop of \<open>Rel\<close> that positions both paths at their first differing elements. It
  returns \<open>base[b0:]\<close>, \<open>targ[t0:]\<close> and the element \<open>base[b0:bi]\<close>.
\<close>

function rel_loop :: "string \<Rightarrow> string \<Rightarrow> string \<times> string \<times> string" where
  "rel_loop b t =
     (if b = [] \<or> t = [] then (b, t, [])
      else if takeWhile not_sep t \<noteq> takeWhile not_sep b then (b, t, takeWhile not_sep b)
      else rel_loop (drop (Suc (length (takeWhile not_sep b))) b)
                    (drop (Suc (length (takeWhile not_sep t))) t))"
  by pat_completeness auto
termination
  by (relation "measure (\<lambda>(b, t). length b)") auto

text \<open>
  \<open>filepath.Rel\<close>: \<open>None\<close> is its error \<open>Rel: can't make ... relative to ...\<close>. The
  library documents that \<open>Rel\<close> calls \<open>Clean\<close> on the result, so that the path from \<open>a\<close> to
  \<open>.\<close> is \<open>..\<close>.
\<close>

definition Rel :: "string \<Rightarrow> string \<Rightarrow> string option" where
  "Rel basepath targpath =
     (let base = Clean basepath; targ = Clean targpath
      in if targ = base then Some ''.''
         else
           let base = (if base = ''.'' then [] else base);
               baseSlashed = (base \<noteq> [] \<and> is_sep (hd base));
               targSlashed = (targ \<noteq> [] \<and> is_sep (hd targ))
           in if baseSlashed \<noteq> targSlashed then None
              else case rel_loop base targ of
                (b, t, e) \<Rightarrow>
                  if e = ''..'' then None
                  else if b \<noteq> []
                  then Some (Clean (''..'' @ concat (replicate (length (filter is_sep b)) ''/..'')
                                     @ (if t \<noteq> [] then ''/'' @ t else [])))
                  else Some (Clean t))"

subsection \<open>The file system as the generator sees it\<close>

text \<open>
  What \<open>Lstat\<close> and the directory listing of \<open>filepath.Walk\<close> find below a root: a
  regular file with its size, a directory with its entries in the order the listing gives
  them, a directory that cannot be listed, an entry that is neither (a symbolic link, a
  device), or a name on which \<open>Lstat\<close> fails.
\<close>

datatype fnode =
    Regular int64
  | Dir "(string \<times> fnode) list"
  | DirUnreadable
  | Irregular
  | LstatFails

text \<open>\<open>os.FileInfo\<close>, as far as the generator reads it.\<close>

record fileinfo =
  IsRegular :: bool
  IsDir :: bool
  info_Size :: int64

definition info_of :: "fnode \<Rightarrow> fileinfo option" where
  "info_of n =
     (case n of
        Regular sz \<Rightarrow> Some \<lparr>IsRegular = True, IsDir = False, info_Size = sz\<rparr>
      | Dir es \<Rightarrow> Some \<lparr>IsRegular = False, IsDir = True, info_Size = 0\<rparr>
      | DirUnreadable \<Rightarrow> Some \<lparr>IsRegular = False, IsDir = True, info_Size = 0\<rparr>
      | Irregular \<Rightarrow> Some \<lparr>IsRegular = False, IsDir = False, info_Size = 0\<rparr>
      | LstatFails \<Rightarrow> None)"

text \<open>
  \<open>filepath.Walk\<close> with its helper \<open>walk\<close>. The function \<open>fn\<close> is the callback; it gets
  the path, the info, whether the error argument is non-nil, and the state, and either
  ends the process (\<open>Inl\<close>) or returns \<open>nil\<close> with the new state. The callback of the
  generator never returns an error, so the library's handling of \<open>SkipDir\<close> and of other
  returned errors is not reached.
\<close>

fun Walk :: "(string \<Rightarrow> fileinfo option \<Rightarrow> bool \<Rightarrow> 's \<Rightarrow> 'x + 's) \<Rightarrow> string \<Rightarrow> fnode \<Rightarrow> 's \<Rightarrow> 'x + 's"
  and walk_names :: "(string \<Rightarrow> fileinfo option \<Rightarrow> bool \<Rightarrow> 's \<Rightarrow> 'x + 's) \<Rightarrow> string
                       \<Rightarrow> (string \<times> fnode) list \<Rightarrow> 's \<Rightarrow> 'x + 's" where
  "Walk fn p (Dir entries) s =
     (case fn p (info_of (Dir entries)) False s of
        Inl x \<Rightarrow> Inl x
      | Inr s' \<Rightarrow> walk_names fn p entries s')"
| "Walk fn p DirUnreadable s = fn p (info_of DirUnreadable) True s"
| "Walk fn p (Regular sz) s = fn p (info_of (Regular sz)) False s"
| "Walk fn p Irregular s = fn p (info_of Irregular) False s"
| "Walk fn p LstatFails s = fn p None True s"
| "walk_names fn p [] s = Inr s"
| "walk_names fn p ((name, child) # rest) s =
     (case Walk fn (Join [p, name]) child s of
        Inl x \<Rightarrow> Inl x
      | Inr s' \<Rightarrow> walk_names fn p rest s')"

text \<open>
  A source file as \<open>os.Open\<close> and \<open>f.Read\<close> show it: the open fails, or it succeeds and
  the successive calls of \<open>Read\<close> give these results, after which \<open>Read\<close> returns
  \<open>0, io.EOF\<close> (an \<open>*os.File\<close> reports the end of the file with no bytes). A result
  is a chunk of bytes with a nil error, or an error other than \<open>io.EOF\<close>, whose bytes the
  generator does not look at.
\<close>

datatype read_result = Chunk "byte list" | ReadFails

datatype source = OpenFails | Opens "read_result list"

text \<open>What \<open>os.Stat\<close> reports for a path.\<close>

datatype fmode = ModeRegular | ModeDir | ModeOther

record filesystem =
  os_Stat :: "string \<Rightarrow> fmode option"
  os_Tree :: "string \<Rightarrow> fnode"
  os_Open :: "string \<Rightarrow> source"

subsection \<open>The output writer\<close>

text \<open>
  \<open>v.w\<close> is an \<open>io.Writer\<close>. Its state is the text written so far and the outcome of each
  coming write (\<open>True\<close> for a failing one; every write succeeds once the list is used up).
\<close>

record writer =
  written :: string
  faults :: "bool list"

datatype gen_error = MaxSizeExceeded | OpenError | ReadError | WriteError

text \<open>\<open>fmt.Fprintf(v.w, ...)\<close> with the formatted text \<open>s\<close>.\<close>

definition Fprintf :: "writer \<Rightarrow> string \<Rightarrow> writer \<times> gen_error option" where
  "Fprintf wr s =
     (case faults wr of
        [] \<Rightarrow> (wr\<lparr>written := written wr @ s\<rparr>, None)
      | failing # rest \<Rightarrow>
          if failing then (wr\<lparr>faults := rest\<rparr>, Some WriteError)
          else (wr\<lparr>written := written wr @ s, faults := rest\<rparr>, None))"

text \<open>The verb \<open>%d\<close> on a byte.\<close>

definition digit :: "nat \<Rightarrow> char" where
  "digit n = ''0123456789'' ! n"

definition decimal :: "byte \<Rightarrow> string" where
  "decimal b =
     (let n = unat b
      in if n < 10 then [digit n]
         else if n < 100 then [digit (n div 10), digit (n mod 10)]
         else [digit (n div 100), digit (n div 10 mod 10), digit (n mod 10)])"

subsection \<open>\<open>hash/adler32\<close> of the Go library\<close>

text \<open>
  The running checksum of RFC 1950 as the library keeps it: the two sums modulo 65521,
  updated byte by byte. \<open>Sum\<close> appends the 32-bit value \<open>s2 << 16 | s1\<close>, most
  significant byte first.
\<close>

type_synonym digest = "nat \<times> nat"

definition adler_mod :: nat where
  "adler_mod = 65521"

definition adler32_New :: digest where
  "adler32_New = (1, 0)"

definition adler_step :: "byte \<Rightarrow> digest \<Rightarrow> digest" where
  "adler_step x d =
     (case d of (s1, s2) \<Rightarrow>
        ((s1 + unat x) mod adler_mod, (s2 + (s1 + unat x) mod adler_mod) mod adler_mod))"

definition hash_Write :: "digest \<Rightarrow> byte list \<Rightarrow> digest" where
  "hash_Write d p = fold adler_step p d"

definition Sum32 :: "digest \<Rightarrow> nat" where
  "Sum32 d = (case d of (s1, s2) \<Rightarrow> s2 * 65536 + s1)"

definition be32 :: "nat \<Rightarrow> byte list" where
  "be32 s = [of_nat (s div 16777216), of_nat (s div 65536), of_nat (s div 256), of_nat s]"

definition hash_Sum :: "digest \<Rightarrow> byte list" where
  "hash_Sum d = be32 (Sum32 d)"

text \<open>The verb \<open>%x\<close> on a byte slice: two lower-case digits for each byte.\<close>

definition hexdigit :: "nat \<Rightarrow> char" where
  "hexdigit n = ''0123456789abcdef'' ! n"

definition hex_byte :: "byte \<Rightarrow> string" where
  "hex_byte b = [hexdigit (unat b div 16), hexdigit (unat b mod 16)]"

definition Sprintf_x :: "byte list \<Rightarrow> string" where
  "Sprintf_x bs = concat (map hex_byte bs)"

subsection \<open>The generator's own code\<close>

text \<open>\<open>type mapping struct { src []string; targetDir string; pattern string }\<close>\<close>

record mapping =
  mapping_src :: "string list"
  mapping_targetDir :: string
  mapping_pattern :: string

text \<open>\<open>type file struct { path string; size int64; version string }\<close> of the generator.\<close>

record file_record =
  file_path :: string
  file_size :: int64
  file_version :: string

text \<open>
  What the process does that can be seen from outside, besides the text it writes to
  \<open>v.w\<close>: its lines on the standard output and its calls on source files.
\<close>

datatype event =
    PrintMapped string string
  | PrintSkipMapping string
  | PrintSkipSource string
  | OsOpen string
  | FileRead string
  | FileClose string

text \<open>
  \<open>type vfs struct { mappings; w; pkgName; processed; buf }\<close>. \<open>vfs_w\<close> is \<open>None\<close> for
  the nil writer of a run without \<open>-o\<close>. The buffer \<open>buf\<close> only carries each chunk from
  \<open>Read\<close> to its uses and has no field here. \<open>vfs_trace\<close> is not a field of the struct:
  it collects the events of the process, the latest last.
\<close>

record vfs =
  vfs_mappings :: "mapping list"
  vfs_w :: "writer option"
  vfs_pkgName :: string
  vfs_processed :: "string \<rightharpoonup> file_record"
  vfs_trace :: "event list"

definition emit :: "event \<Rightarrow> vfs \<Rightarrow> vfs" where
  "emit e v = v\<lparr>vfs_trace := vfs_trace v @ [e]\<rparr>"

text \<open>
  The ways the process ends early, through \<open>handleError\<close> or \<open>errorExit\<close> (both print
  and call \<open>os.Exit(1)\<close>), or through the nil \<open>info\<close> a callback would dereference.
\<close>

datatype fatal =
    CouldNotWriteHeader gen_error
  | StatError string
  | CouldNotVisit string
  | CouldNotRel string string
  | TargetAlreadyExists string
  | CouldNotWrite string gen_error
  | CouldNotWriteFooter gen_error
  | NilInfo string

text \<open>The inner loop of \<open>writeFile\<close>: \<open>for _, b := range v.buf[0:n] { Fprintf(v.w, "%d, ", b) }\<close>.\<close>

fun write_bytes :: "writer \<Rightarrow> byte list \<Rightarrow> writer \<times> gen_error option" where
  "write_bytes wr [] = (wr, None)"
| "write_bytes wr (b # bs) =
     (case Fprintf wr (decimal b @ '', '') of
        (wr', Some e) \<Rightarrow> (wr', Some e)
      | (wr', None) \<Rightarrow> write_bytes wr' bs)"

text \<open>
  The reading loop of \<open>writeFile\<close> over the results of the calls of \<open>Read\<close> on \<open>src\<close>:
  the hash, the writer and the events after the loop, with the error that ended it, if any.
\<close>

fun read_loop :: "string \<Rightarrow> read_result list \<Rightarrow> digest \<Rightarrow> writer \<Rightarrow> event list
                    \<Rightarrow> digest \<times> writer \<times> event list \<times> gen_error option" where
  "read_loop src [] h wr tr = (h, wr, tr @ [FileRead src], None)"
| "read_loop src (ReadFails # rs) h wr tr = (h, wr, tr @ [FileRead src], Some ReadError)"
| "read_loop src (Chunk bs # rs) h wr tr =
     (case write_bytes wr bs of
        (wr', Some e) \<Rightarrow> (hash_Write h bs, wr', tr @ [FileRead src], Some e)
      | (wr', None) \<Rightarrow> read_loop src rs (hash_Write h bs) wr' (tr @ [FileRead src]))"

text \<open>
  The two formats of a table entry, \<open>"\t\"%s\": &file{\n\t\tcontents: []byte{"\<close> and
  \<open>"},\n\t\tversion: \"%s\",\n\t},\n"\<close>, with the tab, the line feed and the double quote
  by their codes.
\<close>

definition entry_open :: "string \<Rightarrow> string" where
  "entry_open target =
     [CHR 0x09, CHR 0x22] @ target @ [CHR 0x22] @ '': &file{'' @ [CHR 0x0A, CHR 0x09, CHR 0x09]
       @ ''contents: []byte{''"

definition entry_close :: "string \<Rightarrow> string" where
  "entry_close ver =
     ''},'' @ [CHR 0x0A, CHR 0x09, CHR 0x09] @ ''version: '' @ [CHR 0x22] @ ver @ [CHR 0x22]
       @ '','' @ [CHR 0x0A, CHR 0x09] @ ''},'' @ [CHR 0x0A]"

text \<open>
  \<open>func (v *vfs) writeFile(target, src string, size int64) (string, error)\<close>: the state
  after the call with the two returned values. The deferred \<open>f.Close()\<close> is the last
  event of every return after a successful open.
\<close>

definition writeFile :: "filesystem \<Rightarrow> vfs \<Rightarrow> string \<Rightarrow> string \<Rightarrow> int64 \<Rightarrow> vfs \<times> string \<times> gen_error option" where
  "writeFile fs v target src sz =
     (case vfs_w v of
        None \<Rightarrow> (v, [], None)
      | Some wr \<Rightarrow>
          if maxSize <s sz then (v, [], Some MaxSizeExceeded)
          else case os_Open fs src of
            OpenFails \<Rightarrow> (emit (OsOpen src) v, [], Some OpenError)
          | Opens reads \<Rightarrow>
              (case Fprintf wr (entry_open target) of
                 (wr1, Some e) \<Rightarrow>
                   (v\<lparr>vfs_w := Some wr1, vfs_trace := vfs_trace v @ [OsOpen src, FileClose src]\<rparr>,
                    [], Some e)
               | (wr1, None) \<Rightarrow>
                   (case read_loop src reads adler32_New wr1 (vfs_trace v @ [OsOpen src]) of
                      (h, wr2, tr, Some e) \<Rightarrow>
                        (v\<lparr>vfs_w := Some wr2, vfs_trace := tr @ [FileClose src]\<rparr>, [], Some e)
                    | (h, wr2, tr, None) \<Rightarrow>
                        (case Fprintf wr2 (entry_close (Sprintf_x (hash_Sum h))) of
                           (wr3, err) \<Rightarrow>
                             (v\<lparr>vfs_w := Some wr3, vfs_trace := tr @ [FileClose src]\<rparr>,
                              Sprintf_x (hash_Sum h), err)))))"

text \<open>
  The callback that \<open>vfs.walk\<close> hands to \<open>filepath.Walk\<close>. An early end of the process
  carries the state it ends in.
\<close>

definition visit :: "filesystem \<Rightarrow> string \<Rightarrow> string \<Rightarrow> string \<Rightarrow> string \<Rightarrow> fileinfo option \<Rightarrow> bool
                       \<Rightarrow> vfs \<Rightarrow> (fatal \<times> vfs) + vfs" where
  "visit fs targetDir src base p info err v =
     (if err then Inl (CouldNotVisit p, v)
      else case info of
        None \<Rightarrow> Inl (NilInfo p, v)
      | Some i \<Rightarrow>
          if IsRegular i then
            (case Rel src p of
               None \<Rightarrow> Inl (CouldNotRel src p, v)
             | Some rel \<Rightarrow>
                 let target = Join [targetDir, base, ToSlash rel]
                 in if vfs_processed v target \<noteq> None then Inl (TargetAlreadyExists target, v)
                    else
                      (case writeFile fs (emit (PrintMapped p target) v) target p (info_Size i) of
                         (v', ver, Some e) \<Rightarrow> Inl (CouldNotWrite target e, v')
                       | (v', ver, None) \<Rightarrow>
                           Inr (v'\<lparr>vfs_processed := (vfs_processed v')(target \<mapsto>
                                  \<lparr>file_path = target, file_size = info_Size i,
                                   file_version = ver\<rparr>)\<rparr>)))
          else Inr v)"

text \<open>
  \<open>func (v *vfs) walk(targetDir string, src string)\<close>. \<open>filepath.Walk\<close> returns \<open>nil\<close>
  whenever the callback does, so the \<open>handleError\<close> after it never ends the process.
\<close>

definition vfs_walk :: "filesystem \<Rightarrow> vfs \<Rightarrow> string \<Rightarrow> string \<Rightarrow> (fatal \<times> vfs) + vfs" where
  "vfs_walk fs v targetDir src =
     Walk (visit fs targetDir src (Base src)) src (os_Tree fs src) v"

text \<open>
  \<open>writeHeader\<close> and \<open>writeFooter\<close>. The template \<open>tmplHeader\<close> parses into five nodes:
  three texts and, between them, the field \<open>pkgName\<close> twice (the time \<open>ts\<close> is passed
  but the template does not use it). \<open>Execute\<close> writes node after node, each with one
  call of \<open>Write\<close>, and stops at the first error. The third text is the source of the
  runtime; it is the parameter \<open>runtime\<close>. Parsing the constant template does not fail.
\<close>

datatype node = Text string | Field_pkgName

definition tmplHeader :: "string \<Rightarrow> node list" where
  "tmplHeader runtime =
     [Text (''// Code generated with govfs. DO NOT EDIT.'' @ [CHR 0x0A, CHR 0x0A]
            @ ''// Package ''),
      Field_pkgName,
      Text ('' provides an embedded virtual file system.'' @ [CHR 0x0A] @ ''package ''),
      Field_pkgName,
      Text runtime]"

fun Execute :: "writer \<Rightarrow> node list \<Rightarrow> string \<Rightarrow> writer \<times> gen_error option" where
  "Execute wr [] pkgName = (wr, None)"
| "Execute wr (n # ns) pkgName =
     (case Fprintf wr (case n of Text s \<Rightarrow> s | Field_pkgName \<Rightarrow> pkgName) of
        (wr', Some e) \<Rightarrow> (wr', Some e)
      | (wr', None) \<Rightarrow> Execute wr' ns pkgName)"

definition writeHeader :: "string \<Rightarrow> vfs \<Rightarrow> vfs \<times> gen_error option" where
  "writeHeader runtime v =
     (case vfs_w v of
        None \<Rightarrow> (v, None)
      | Some wr \<Rightarrow>
          (case Execute wr (tmplHeader runtime) (vfs_pkgName v) of
             (wr', err) \<Rightarrow> (v\<lparr>vfs_w := Some wr'\<rparr>, err)))"

definition writeFooter :: "vfs \<Rightarrow> vfs \<times> gen_error option" where
  "writeFooter v =
     (case vfs_w v of
        None \<Rightarrow> (v, None)
      | Some wr \<Rightarrow>
          (case Fprintf wr (''}'' @ [CHR 0x0A]) of (wr', err) \<Rightarrow> (v\<lparr>vfs_w := Some wr'\<rparr>, err)))"

text \<open>The two loops of \<open>Generate\<close>, over the sources of one mapping and over the mappings.\<close>

fun gen_sources :: "filesystem \<Rightarrow> string \<Rightarrow> string list \<Rightarrow> vfs \<Rightarrow> (fatal \<times> vfs) + vfs" where
  "gen_sources fs targetDir [] v = Inr v"
| "gen_sources fs targetDir (s # ss) v =
     (case os_Stat fs s of
        None \<Rightarrow> Inl (StatError s, v)
      | Some m \<Rightarrow>
          if m = ModeRegular \<or> m = ModeDir
          then (case vfs_walk fs v targetDir s of
                  Inl x \<Rightarrow> Inl x
                | Inr v' \<Rightarrow> gen_sources fs targetDir ss v')
          else gen_sources fs targetDir ss (emit (PrintSkipSource s) v))"

fun gen_mappings :: "filesystem \<Rightarrow> mapping list \<Rightarrow> vfs \<Rightarrow> (fatal \<times> vfs) + vfs" where
  "gen_mappings fs [] v = Inr v"
| "gen_mappings fs (m # ms) v =
     (case gen_sources fs (mapping_targetDir m) (mapping_src m)
             (if mapping_src m = [] then emit (PrintSkipMapping (mapping_pattern m)) v else v) of
        Inl x \<Rightarrow> Inl x
      | Inr v' \<Rightarrow> gen_mappings fs ms v')"

text \<open>\<open>func (v *vfs) Generate()\<close>\<close>

definition Generate :: "filesystem \<Rightarrow> string \<Rightarrow> vfs \<Rightarrow> (fatal \<times> vfs) + vfs" where
  "Generate fs runtime v =
     (case writeHeader runtime (v\<lparr>vfs_processed := Map.empty\<rparr>) of
        (v1, Some e) \<Rightarrow> Inl (CouldNotWriteHeader e, v1)
      | (v1, None) \<Rightarrow>
          (case gen_mappings fs (vfs_mappings v1) v1 of
             Inl x \<Rightarrow> Inl x
           | Inr v2 \<Rightarrow>
               (case writeFooter v2 of
                  (v3, Some e) \<Rightarrow> Inl (CouldNotWriteFooter e, v3)
                | (v3, None) \<Rightarrow> Inr v3)))"

section \<open>Vocabulary of the runtime properties\<close>

text \<open>A Go slice never has more than \<open>math.MaxInt\<close> elements.\<close>

definition go_slice :: "'a list \<Rightarrow> bool" where
  "go_slice xs \<longleftrightarrow> length xs < 2 ^ 63"

text \<open>The invariant of a handle: \<open>0 \<le> offset \<le> size\<close>.\<close>

definition offset_inv :: "File \<Rightarrow> bool" where
  "offset_inv h \<longleftrightarrow>
     0 \<le> sint (File_offset h) \<and> sint (File_offset h) \<le> int (length (contents (File_f h)))"

text \<open>
  The candidate offset of a seek as the specification words it, over the unbounded
  integers: \<open>offset\<close> from the start, \<open>cur + offset\<close> from the current position,
  \<open>size - offset\<close> from the end.
\<close>

definition candidate :: "int \<Rightarrow> int \<Rightarrow> int \<Rightarrow> go_int \<Rightarrow> int" where
  "candidate sz cur off whence =
     (if whence = SeekStart then off
      else if whence = SeekCurrent then cur + off
      else sz - off)"

text \<open>
  The quantities of a read as the specification words them, as natural numbers: the
  cursor, the bytes still available, and the number of bytes a buffer \<open>b\<close> receives.
\<close>

definition cursor :: "File \<Rightarrow> nat" where
  "cursor h = nat (sint (File_offset h))"

definition available :: "File \<Rightarrow> nat" where
  "available h = length (contents (File_f h)) - cursor h"

definition copied :: "File \<Rightarrow> byte list \<Rightarrow> nat" where
  "copied h b = min (available h) (length b)"

text \<open>
  A sequence of operations on one handle: each step gives the handle after the call,
  \<open>None\<close> when the call panics; \<open>run\<close> collects the handle after each operation.
\<close>

datatype op = OpRead "byte list" | OpSeek int64 go_int

fun step :: "File \<Rightarrow> op \<Rightarrow> File option" where
  "step h (OpRead b) = map_option fst (Read h b)"
| "step h (OpSeek off whence) = Some (fst (Seek h off whence))"

fun run :: "File \<Rightarrow> op list \<Rightarrow> File list option" where
  "run h [] = Some []"
| "run h (x # xs) =
     (case step h x of
        None \<Rightarrow> None
      | Some h' \<Rightarrow> (case run h' xs of None \<Rightarrow> None | Some hs \<Rightarrow> Some (h' # hs)))"

fun buffers_ok :: "op list \<Rightarrow> bool" where
  "buffers_ok [] = True"
| "buffers_ok (OpRead b # xs) = (go_slice b \<and> buffers_ok xs)"
| "buffers_ok (OpSeek off whence # xs) = buffers_ok xs"

text \<open>
  The table of Scenario A: one entry at \<open>/docs/hello.txt\<close> holding the two bytes
  \<open>h\<close>, \<open>i\<close>, a handle on it as \<open>Open\<close> returns it, and a sequence of operations.
\<close>

definition hello_entry :: file_entry where
  "hello_entry = \<lparr>contents = [104, 105], version = ''013b00d2''\<rparr>"

definition hello_store :: "string \<rightharpoonup> file_entry" where
  "hello_store = [''/docs/hello.txt'' \<mapsto> hello_entry]"

definition hello_handle :: File where
  "hello_handle = \<lparr>File_f = hello_entry, File_path = ''/docs/hello.txt'', File_offset = 0\<rparr>"

definition hello_ops :: "op list" where
  "hello_ops = [OpRead [0], OpSeek 5 SeekStart, OpRead [0, 0, 0], OpRead [0], OpSeek 1 SeekEnd]"

section \<open>Vocabulary of the generator properties\<close>

text \<open>
  The Adler-32 checksum of a byte sequence in closed form (RFC 1950): \<open>A\<close> is one plus the
  sum of the bytes, \<open>B\<close> the sum of the values \<open>A\<close> takes after each byte, both modulo
  65521, and the checksum is \<open>B * 65536 + A\<close>.
\<close>

definition byte_sum :: "byte list \<Rightarrow> nat" where
  "byte_sum bs = sum_list (map unat bs)"

definition adler_A :: "byte list \<Rightarrow> nat" where
  "adler_A bs = (1 + byte_sum bs) mod 65521"

definition adler_B :: "byte list \<Rightarrow> nat" where
  "adler_B bs = (\<Sum>k\<leftarrow>[0..<length bs]. 1 + byte_sum (take (Suc k) bs)) mod 65521"

definition adler32 :: "byte list \<Rightarrow> nat" where
  "adler32 bs = adler_B bs * 65536 + adler_A bs"

text \<open>
  Lower-case hexadecimal notation, said on its own terms: the digit of a value below
  sixteen by its character code (\<open>0\<close> is 48, \<open>a\<close> is 97), the numeral of \<open>k\<close> digits of a
  number, most significant digit first, and the number a numeral denotes.
\<close>

definition hex_char :: "nat \<Rightarrow> char" where
  "hex_char d = (if d < 10 then char_of (48 + d) else char_of (87 + d))"

fun hexn :: "nat \<Rightarrow> nat \<Rightarrow> string" where
  "hexn 0 n = []"
| "hexn (Suc k) n = hexn k (n div 16) @ [hex_char (n mod 16)]"

definition hex_digit_value :: "char \<Rightarrow> nat" where
  "hex_digit_value c = (if of_char c \<le> (57::nat) then of_char c - 48 else of_char c - 87)"

definition hex_value :: "string \<Rightarrow> nat" where
  "hex_value s = foldl (\<lambda>a c. 16 * a + hex_digit_value c) 0 s"

text \<open>
  The version the specification gives a byte sequence: its checksum as eight lower-case
  hexadecimal digits, most significant first.
\<close>

definition version_of :: "byte list \<Rightarrow> string" where
  "version_of bs = hexn 8 (adler32 bs)"

definition lower_hex :: "char set" where
  "lower_hex = set ''0123456789abcdef''"

text \<open>The bytes of a source file, in the order its reads deliver them.\<close>

fun file_bytes :: "read_result list \<Rightarrow> byte list" where
  "file_bytes [] = []"
| "file_bytes (Chunk bs # rs) = bs @ file_bytes rs"
| "file_bytes (ReadFails # rs) = file_bytes rs"

text \<open>
  The pairs (source path, virtual path) of the lines \<open>p -> target\<close> among the events:
  one for each file the walk sets out to register.
\<close>

fun mapped :: "event list \<Rightarrow> (string \<times> string) list" where
  "mapped [] = []"
| "mapped (PrintMapped p t # es) = (p, t) # mapped es"
| "mapped (e # es) = mapped es"

text \<open>
  The virtual paths the run has set out to register, in order, and the invariant that
  ties them to the registry: no virtual path occurs twice, and the keys of the registry
  are these paths. When the process ends early the last path may be missing from the
  registry; a collision names a key the registry holds.
\<close>

definition targets :: "vfs \<Rightarrow> string list" where
  "targets v = map snd (mapped (vfs_trace v))"

definition reg_inv :: "vfs \<Rightarrow> bool" where
  "reg_inv v \<longleftrightarrow> distinct (targets v) \<and> set (targets v) = dom (vfs_processed v)"

definition exit_inv :: "fatal \<times> vfs \<Rightarrow> bool" where
  "exit_inv x \<longleftrightarrow>
     distinct (targets (snd x)) \<and> dom (vfs_processed (snd x)) \<subseteq> set (targets (snd x))
     \<and> (\<forall>t. fst x = TargetAlreadyExists t \<longrightarrow> t \<in> dom (vfs_processed (snd x)))"

text \<open>
  The run as a sequence of steps, in the order the specification gives them: the mappings
  in their order, under each mapping its sources in their order, under each source the
  entries in the order the walk finds them. A step is the visit of one entry (with the
  mapping's target directory and the source it was found under), a source on which \<open>Stat\<close>
  fails, a source that is neither a file nor a directory, or a mapping without sources.
  The steps are taken one after the other; the first one that ends the process ends the
  run in the state it leaves, and no later step is taken.
\<close>

datatype run_step =
    Entry string string string "fileinfo option" bool
  | StatFails string
  | SkipSource string
  | SkipMapping string

fun entries_of :: "string \<Rightarrow> fnode \<Rightarrow> (string \<times> fileinfo option \<times> bool) list"
  and entries_below :: "string \<Rightarrow> (string \<times> fnode) list \<Rightarrow> (string \<times> fileinfo option \<times> bool) list" where
  "entries_of p (Dir es) = (p, info_of (Dir es), False) # entries_below p es"
| "entries_of p DirUnreadable = [(p, info_of DirUnreadable, True)]"
| "entries_of p (Regular sz) = [(p, info_of (Regular sz), False)]"
| "entries_of p Irregular = [(p, info_of Irregular, False)]"
| "entries_of p LstatFails = [(p, None, True)]"
| "entries_below p [] = []"
| "entries_below p ((name, child) # rest) = entries_of (Join [p, name]) child @ entries_below p rest"

definition steps_of_source :: "filesystem \<Rightarrow> string \<Rightarrow> string \<Rightarrow> run_step list" where
  "steps_of_source fs targetDir s =
     (case os_Stat fs s of
        None \<Rightarrow> [StatFails s]
      | Some m \<Rightarrow>
          if m = ModeRegular \<or> m = ModeDir
          then map (\<lambda>(p, i, e). Entry targetDir s p i e) (entries_of s (os_Tree fs s))
          else [SkipSource s])"

definition steps_of_mapping :: "filesystem \<Rightarrow> mapping \<Rightarrow> run_step list" where
  "steps_of_mapping fs m =
     (if mapping_src m = [] then [SkipMapping (mapping_pattern m)] else [])
     @ concat (map (steps_of_source fs (mapping_targetDir m)) (mapping_src m))"

definition steps_of :: "filesystem \<Rightarrow> mapping list \<Rightarrow> run_step list" where
  "steps_of fs ms = concat (map (steps_of_mapping fs) ms)"

definition do_step :: "filesystem \<Rightarrow> run_step \<Rightarrow> vfs \<Rightarrow> (fatal \<times> vfs) + vfs" where
  "do_step fs st v =
     (case st of
        Entry targetDir src p info err \<Rightarrow> visit fs targetDir src (Base src) p info err v
      | StatFails s \<Rightarrow> Inl (StatError s, v)
      | SkipSource s \<Rightarrow> Inr (emit (PrintSkipSource s) v)
      | SkipMapping pat \<Rightarrow> Inr (emit (PrintSkipMapping pat) v))"

fun run_steps :: "filesystem \<Rightarrow> run_step list \<Rightarrow> vfs \<Rightarrow> (fatal \<times> vfs) + vfs" where
  "run_steps fs [] v = Inr v"
| "run_steps fs (st # sts) v =
     (case do_step fs st v of
        Inl x \<Rightarrow> Inl x
      | Inr v' \<Rightarrow> run_steps fs sts v')"










text \<open>The calls on source files among the events.\<close>

fun file_calls :: "event list \<Rightarrow> event list" where
  "file_calls [] = []"
| "file_calls (OsOpen p # es) = OsOpen p # file_calls es"
| "file_calls (FileRead p # es) = FileRead p # file_calls es"
| "file_calls (FileClose p # es) = FileClose p # file_calls es"
| "file_calls (e # es) = file_calls es"

text \<open>The entry a run registered under a virtual path, if the run came to its end.\<close>

definition registered :: "(fatal \<times> vfs) + vfs \<Rightarrow> string \<Rightarrow> file_record option" where
  "registered r key = (case r of Inl x \<Rightarrow> None | Inr v \<Rightarrow> vfs_processed v key)"

text \<open>
  Examples: a run without \<open>-o\<close> and a run that writes; the source file of Scenario A, whose
  two bytes arrive in one read or in two; a source file that declares \<open>2^31\<close> bytes; the
  directory of Scenario B; two sources that meet at one virtual path (Scenario D); and a
  run in which a file inside a walked directory meets the virtual path of an earlier
  mapping, with one more source after it, and the state that run ends in.
\<close>

definition dry_vfs :: vfs where
  "dry_vfs = \<lparr>vfs_mappings = [], vfs_w = None, vfs_pkgName = ''vfs'',
              vfs_processed = Map.empty, vfs_trace = []\<rparr>"

definition out_vfs :: vfs where
  "out_vfs = \<lparr>vfs_mappings = [], vfs_w = Some \<lparr>written = [], faults = []\<rparr>,
              vfs_pkgName = ''vfs'', vfs_processed = Map.empty, vfs_trace = []\<rparr>"

definition example_fs :: filesystem where
  "example_fs =
     \<lparr>os_Stat = (\<lambda>p. if p = ''assets'' then Some ModeDir else Some ModeRegular),
      os_Tree = (\<lambda>p. if p = ''assets'' then Dir [(''sub'', Dir [(''file.txt'', Regular 2)])]
                      else if p = ''big.bin'' then Regular 2147483648
                      else if p = ''max.bin'' then Regular 2147483647
                      else Regular 2),
      os_Open = (\<lambda>p. if p = ''a/x.txt'' then Opens [Chunk [104], Chunk [105]]
                      else Opens [Chunk [104, 105]])\<rparr>"

definition scenario_d :: "mapping list" where
  "scenario_d =
     [\<lparr>mapping_src = [''a/x.txt''], mapping_targetDir = ''/out'', mapping_pattern = ''a/x.txt::/out''\<rparr>,
      \<lparr>mapping_src = [''b/x.txt''], mapping_targetDir = ''/out'', mapping_pattern = ''b/x.txt::/out''\<rparr>]"

definition registered_d :: vfs where
  "registered_d =
     dry_vfs\<lparr>vfs_processed :=
       [''/out/x.txt'' \<mapsto> \<lparr>file_path = ''/out/x.txt'', file_size = 2, file_version = []\<rparr>]\<rparr>"

definition scenario_e :: "mapping list" where
  "scenario_e =
     [\<lparr>mapping_src = [''x/file.txt''], mapping_targetDir = ''/static/assets/sub'',
       mapping_pattern = ''x/file.txt::/static/assets/sub''\<rparr>,
      \<lparr>mapping_src = [''assets'', ''b.txt''], mapping_targetDir = ''/static'',
       mapping_pattern = ''*::/static''\<rparr>]"

definition registered_e :: vfs where
  "registered_e =
     dry_vfs\<lparr>vfs_mappings := scenario_e,
             vfs_processed :=
               [''/static/assets/sub/file.txt'' \<mapsto>
                  \<lparr>file_path = ''/static/assets/sub/file.txt'', file_size = 2, file_version = []\<rparr>],
             vfs_trace := [PrintMapped ''x/file.txt'' ''/static/assets/sub/file.txt'']\<rparr>"
section \<open>Properties of the runtime\<close>

subsection \<open>Signed 64-bit arithmetic\<close>

lemma sint_wrap64: "sint (word_of_int c :: 64 word) = (c + 2 ^ 63) mod 2 ^ 64 - 2 ^ 63"
  by (simp add: sint_sbintrunc' signed_take_bit_eq_take_bit_shift take_bit_eq_mod)

lemma sint_exact64:
  assumes "- (2 ^ 63) \<le> c" and "c < 2 ^ 63"
  shows "sint (word_of_int c :: 64 word) = c"
  using assms by (simp add: sint_wrap64)

lemma sint_overflow64:
  assumes "2 ^ 63 \<le> c" and "c < 2 ^ 64"
  shows "sint (word_of_int c :: 64 word) = c - 2 ^ 64"
proof -
  have "(c + 2 ^ 63) mod 2 ^ 64 = c + 2 ^ 63 - 2 ^ 64"
    using assms by (simp add: mod_pos_geq)
  thus ?thesis by (simp add: sint_wrap64)
qed

lemma sint_range64: "- (2 ^ 63) \<le> sint (w :: 64 word) \<and> sint w < 2 ^ 63"
  using sint_ge[of w] sint_lt[of w] by simp

lemma sint_of_nat64: "k < 2 ^ 63 \<Longrightarrow> sint (of_nat k :: 64 word) = int k"
  using sint_exact64[of "int k"] by simp

lemma unat_of_nat64: "k < 2 ^ 63 \<Longrightarrow> unat (of_nat k :: 64 word) = k"
  by (simp add: unat_of_nat)

lemma of_nat_eq64:
  assumes "k < 2 ^ 63" "j < 2 ^ 63"
  shows "(of_nat k :: 64 word) = of_nat j \<longleftrightarrow> k = j"
  using assms unat_of_nat64 by metis

lemma nonneg_word64:
  assumes "0 \<le> sint (w :: 64 word)"
  shows "w = of_nat (nat (sint w)) \<and> nat (sint w) < 2 ^ 63"
proof -
  have "nat (sint w) < 2 ^ 63" using sint_range64[of w] assms by simp
  moreover have "(of_nat (nat (sint w)) :: 64 word) = word_of_int (sint w)"
    using assms by simp
  ultimately show ?thesis by simp
qed

lemma sint_len: "go_slice xs \<Longrightarrow> sint (len xs) = int (length xs)"
  by (simp add: len_def go_slice_def sint_of_nat64)

lemma sint_maxSize: "sint maxSize = 2147483647"
  by (simp add: maxSize_def)

subsection \<open>Seek\<close>

lemma bounds_wrap:
  assumes "0 \<le> sz" "sz < 2 ^ 63" "- (2 ^ 63) \<le> c" "c < 2 ^ 64"
  shows "(2147483647 < sint (word_of_int c :: 64 word) \<or> sint (word_of_int c :: 64 word) < 0
            \<or> sz < sint (word_of_int c :: 64 word))
         \<longleftrightarrow> (2147483647 < c \<or> c < 0 \<or> sz < c)"
proof (cases "c < 2 ^ 63")
  case True
  with assms show ?thesis by (simp add: sint_exact64)
next
  case False
  with assms have "sint (word_of_int c :: 64 word) = c - 2 ^ 64"
    by (simp add: sint_overflow64)
  with False assms show ?thesis by simp
qed

lemma word_cand:
  "word_of_int (candidate (int (length xs)) (sint cur) (sint off) whence) =
     (if whence = SeekStart then off
      else if whence = SeekCurrent then cur + off
      else len xs - (off :: 64 word))"
  by (simp add: candidate_def len_def)

lemma cand_range:
  assumes "go_slice xs" "0 \<le> sint (cur::64 word)" "sint cur \<le> int (length xs)"
    and "sint (off :: 64 word) \<le> 2147483647"
  shows "- (2 ^ 63) \<le> candidate (int (length xs)) (sint cur) (sint off) whence
       \<and> candidate (int (length xs)) (sint cur) (sint off) whence < 2 ^ 64"
  using assms sint_range64[of off] sint_range64[of cur]
  by (auto simp: candidate_def go_slice_def)

lemma Seek_large_offset:
  "maxSize <s off \<Longrightarrow> Seek h off whence = (h, 0, Some (InvalidTargetOffset off))"
  by (simp add: Seek_def)

lemma Seek_bad_whence:
  assumes "\<not> maxSize <s off" and "whence \<notin> {SeekStart, SeekCurrent, SeekEnd}"
  shows "Seek h off whence = (h, 0, Some (InvalidSeekWhence whence))"
  using assms by (simp add: Seek_def)

lemma Seek_in_range:
  assumes gs: "go_slice (contents (File_f h))" and inv: "offset_inv h"
    and small: "\<not> maxSize <s off" and wh: "whence \<in> {SeekStart, SeekCurrent, SeekEnd}"
  shows "Seek h off whence =
    (let sz = int (length (contents (File_f h)));
         c = candidate sz (sint (File_offset h)) (sint off) whence
     in if sint maxSize < c \<or> c < 0 \<or> sz < c
        then (h, 0, Some (InvalidTargetOffset (word_of_int c)))
        else (h\<lparr>File_offset := word_of_int c\<rparr>, word_of_int c, None))"
proof -
  let ?xs = "contents (File_f h)"
  let ?c = "candidate (int (length ?xs)) (sint (File_offset h)) (sint off) whence"
  let ?w = "word_of_int ?c :: 64 word"
  have r: "- (2 ^ 63) \<le> ?c \<and> ?c < 2 ^ 64"
    using cand_range[of ?xs "File_offset h" off whence] gs inv small
    by (simp add: offset_inv_def sint_maxSize word_sless_alt)
  have sz: "0 \<le> int (length ?xs) \<and> int (length ?xs) < 2 ^ 63"
    using gs by (simp add: go_slice_def)
  have b: "(2147483647 < sint ?w \<or> sint ?w < 0 \<or> int (length ?xs) < sint ?w)
         \<longleftrightarrow> (2147483647 < ?c \<or> ?c < 0 \<or> int (length ?xs) < ?c)"
    using bounds_wrap[of "int (length ?xs)" ?c] r sz by blast
  define n where "n = (if whence = SeekStart then off
      else if whence = SeekEnd then len ?xs - off
      else File_offset h + off)"
  have nc: "n = ?w"
    using wh by (auto simp: n_def word_cand SeekStart_def SeekEnd_def SeekCurrent_def)
  have "Seek h off whence =
     (if maxSize <s n \<or> n <s 0 \<or> len ?xs <s n
      then (h, 0, Some (InvalidTargetOffset n))
      else (h\<lparr>File_offset := n\<rparr>, n, None))"
    using small wh by (auto simp: Seek_def Let_def n_def)
  also have "\<dots> =
     (if maxSize <s ?w \<or> ?w <s 0 \<or> len ?xs <s ?w
      then (h, 0, Some (InvalidTargetOffset ?w))
      else (h\<lparr>File_offset := ?w\<rparr>, ?w, None))"
    unfolding nc by (rule refl)
  also have "\<dots> =
     (if sint maxSize < ?c \<or> ?c < 0 \<or> int (length ?xs) < ?c
      then (h, 0, Some (InvalidTargetOffset ?w))
      else (h\<lparr>File_offset := ?w\<rparr>, ?w, None))"
    using b by (simp add: word_sless_alt sint_maxSize sint_len[OF gs])
  finally show ?thesis by (simp add: Let_def)
qed

lemma Seek_inv:
  assumes gs: "go_slice (contents (File_f h))" and inv: "offset_inv h"
  shows "offset_inv (fst (Seek h off whence))
       \<and> File_f (fst (Seek h off whence)) = File_f h
       \<and> (snd (snd (Seek h off whence)) \<noteq> None \<longrightarrow> fst (Seek h off whence) = h)"
proof (cases "maxSize <s off")
  case True
  then show ?thesis using inv by (simp add: Seek_large_offset)
next
  case small: False
  show ?thesis
  proof (cases "whence \<in> {SeekStart, SeekCurrent, SeekEnd}")
    case False
    then show ?thesis using inv small Seek_bad_whence[of off whence h] by simp
  next
    case True
    let ?sz = "int (length (contents (File_f h)))"
    let ?c = "candidate ?sz (sint (File_offset h)) (sint off) whence"
    show ?thesis
    proof (cases "sint maxSize < ?c \<or> ?c < 0 \<or> ?sz < ?c")
      case True
      then show ?thesis
        using inv Seek_in_range[OF gs inv small \<open>whence \<in> _\<close>] by (simp add: Let_def)
    next
      case False
      then have "sint (word_of_int ?c :: 64 word) = ?c"
        using sint_exact64[of ?c] by (simp add: sint_maxSize)
      then show ?thesis
        using False Seek_in_range[OF gs inv small \<open>whence \<in> _\<close>]
        by (simp add: Let_def offset_inv_def)
    qed
  qed
qed

subsection \<open>Read\<close>

lemma slice_nat:
  assumes "lo \<le> hi" "hi \<le> length s" "length s < 2 ^ 63"
  shows "slice s (of_nat lo) (of_nat hi) = Some (take (hi - lo) (drop lo s))"
proof -
  have "lo < 2 ^ 63" "hi < 2 ^ 63" using assms by simp_all
  then show ?thesis
    using assms by (simp add: slice_def len_def word_sle_eq sint_of_nat64 unat_of_nat64)
qed

lemma Read_eq:
  assumes gs: "go_slice (contents (File_f h))" and gb: "go_slice b" and inv: "offset_inv h"
  shows "Read h b =
     (if available h = 0 then Some (h, b, 0, Some EOF)
      else Some (h\<lparr>File_offset := of_nat (cursor h + copied h b)\<rparr>,
                 take (copied h b) (drop (cursor h) (contents (File_f h))) @ drop (copied h b) b,
                 of_nat (copied h b), None))"
proof -
  let ?xs = "contents (File_f h)"
  let ?cur = "cursor h"
  let ?av = "available h"
  let ?n = "copied h b"
  have sz: "length ?xs < 2 ^ 63" using gs by (simp add: go_slice_def)
  have bl: "length b < 2 ^ 63" using gb by (simp add: go_slice_def)
  have le: "?cur \<le> length ?xs" using inv unfolding offset_inv_def cursor_def by linarith
  have off: "File_offset h = of_nat ?cur"
    using nonneg_word64[of "File_offset h"] inv by (simp add: offset_inv_def cursor_def)
  have av: "len ?xs - (of_nat ?cur :: 64 word) = of_nat ?av"
    using le by (simp add: len_def available_def)
  have av63: "?av < 2 ^ 63" using sz by (simp add: available_def)
  have av0: "(of_nat ?av :: 64 word) = 0 \<longleftrightarrow> ?av = 0"
    using of_nat_eq64[of ?av 0] av63 by simp
  have cr: "(if len b <s (of_nat ?av :: 64 word) then len b else of_nat ?av) = of_nat ?n"
    using bl av63 by (simp add: len_def word_sless_alt sint_of_nat64 min_def copied_def)
  have nle: "?cur + ?n \<le> length ?xs" using le by (simp add: copied_def available_def)
  have sl: "slice ?xs (of_nat ?cur) (of_nat ?cur + of_nat ?n) = Some (take ?n (drop ?cur ?xs))"
    using slice_nat[of ?cur "?cur + ?n" ?xs] sz nle by simp
  have ln: "min (length b) (min (length ?xs - ?cur) ?n) = ?n"
    by (simp add: copied_def available_def)
  show ?thesis
    unfolding Read_def Let_def off
    apply (simp only: av)
    apply (simp only: cr)
    apply (simp only: sl option.case)
    apply (simp add: av0 copy_def Let_def ln del: of_nat_diff)
    done
qed

lemma Read_inv:
  assumes gs: "go_slice (contents (File_f h))" and gb: "go_slice b" and inv: "offset_inv h"
  shows "\<exists>h' b' n e. Read h b = Some (h', b', n, e) \<and> offset_inv h' \<and> File_f h' = File_f h"
proof (cases "available h = 0")
  case True
  then show ?thesis using Read_eq[OF gs gb inv] inv by simp
next
  case False
  have "cursor h \<le> length (contents (File_f h))"
    using inv unfolding offset_inv_def cursor_def by linarith
  then have le: "cursor h + copied h b \<le> length (contents (File_f h))"
    by (simp add: copied_def available_def)
  then have "cursor h + copied h b < 2 ^ 63" using gs by (simp add: go_slice_def)
  then have "sint (of_nat (cursor h + copied h b) :: 64 word) = int (cursor h + copied h b)"
    by (rule sint_of_nat64)
  then have "offset_inv (h\<lparr>File_offset := of_nat (cursor h + copied h b)\<rparr>)"
    using le by (simp add: offset_inv_def del: of_nat_add)
  then show ?thesis using False Read_eq[OF gs gb inv] by simp
qed

subsection \<open>The handle of Scenario A\<close>

lemma hello_go_slice: "go_slice (contents (File_f hello_handle))"
  by (simp add: hello_handle_def hello_entry_def go_slice_def)

lemma hello_offset_inv: "offset_inv hello_handle"
  by (simp add: hello_handle_def hello_entry_def offset_inv_def)

lemma hello_fields:
  "contents (File_f hello_handle) = [104, 105]" "File_offset hello_handle = 0"
  by (simp_all add: hello_handle_def hello_entry_def)

lemmas seek_eval =
  hello_fields candidate_def sint_maxSize SeekStart_def SeekCurrent_def SeekEnd_def Let_def

subsection \<open>Sequences of operations\<close>

lemma step_inv:
  assumes "go_slice (contents (File_f h))" and "offset_inv h" and "buffers_ok [x]"
  shows "\<exists>h'. step h x = Some h' \<and> offset_inv h' \<and> File_f h' = File_f h"
proof (cases x)
  case (OpRead b)
  then have "go_slice b" using assms(3) by simp
  from Read_inv[OF assms(1) this assms(2)] OpRead show ?thesis by auto
next
  case (OpSeek off whence)
  with Seek_inv[OF assms(1) assms(2), of off whence] show ?thesis by simp
qed

lemma buffers_ok_Cons: "buffers_ok (x # xs) \<longleftrightarrow> buffers_ok [x] \<and> buffers_ok xs"
  by (cases x) simp_all

lemma run_inv:
  assumes "go_slice (contents (File_f h))" and "offset_inv h" and "buffers_ok ops"
  shows "\<exists>hs. run h ops = Some hs \<and> length hs = length ops \<and> (\<forall>h'\<in>set hs. offset_inv h')"
  using assms
proof (induction ops arbitrary: h)
  case Nil
  then show ?case by simp
next
  case (Cons x xs)
  from Cons.prems(3) have bx: "buffers_ok [x]" and bxs: "buffers_ok xs"
    using buffers_ok_Cons[of x xs] by simp_all
  from step_inv[OF Cons.prems(1) Cons.prems(2) bx]
  obtain h' where s: "step h x = Some h'" and i: "offset_inv h'" and f: "File_f h' = File_f h"
    by blast
  from Cons.IH[of h'] Cons.prems(1) i f bxs
  obtain hs where "run h' xs = Some hs" "length hs = length xs" "\<forall>g\<in>set hs. offset_inv g"
    by auto
  with s i show ?case by simp
qed

lemma Open_Inr:
  "Open store p v = Inr h \<Longrightarrow> File_offset h = 0 \<and> offset_inv h \<and> store p = Some (File_f h)"
  by (auto simp: Open_def offset_inv_def split: option.splits if_splits)

subsection \<open>The claims\<close>

text \<open>
  C1, as amended (the order of the two tests made explicit). On a handle that satisfies the
  invariant, over an entry of \<open>size\<close> bytes, \<open>Seek(offset, whence)\<close> is decided by the
  candidate computed over the unbounded integers (\<open>offset\<close> for \<open>SeekStart\<close>,
  \<open>cur + offset\<close> for \<open>SeekCurrent\<close>, \<open>size - offset\<close> for \<open>SeekEnd\<close>): an input offset
  above \<open>maxSize\<close> fails with the invalid-offset error, whatever \<open>whence\<close> is; otherwise
  any other \<open>whence\<close> fails with the invalid-whence error; otherwise a candidate above \<open>maxSize\<close>, below 0 or above \<open>size\<close> fails with the
  invalid-offset error; otherwise the candidate becomes the handle's offset and is
  returned. Every failure leaves the handle as it was. The 64-bit wrap-around of the
  code never changes the outcome; only the value printed in the error is the wrapped one.
\<close>

theorem Seek_candidate:
  assumes "go_slice (contents (File_f h))" and "offset_inv h"
  shows "Seek h off whence =
    (let sz = int (length (contents (File_f h)));
         c = candidate sz (sint (File_offset h)) (sint off) whence
     in if sint maxSize < sint off then (h, 0, Some (InvalidTargetOffset off))
        else if whence \<notin> {SeekStart, SeekCurrent, SeekEnd}
        then (h, 0, Some (InvalidSeekWhence whence))
        else if sint maxSize < c \<or> c < 0 \<or> sz < c
        then (h, 0, Some (InvalidTargetOffset (word_of_int c)))
        else (h\<lparr>File_offset := word_of_int c\<rparr>, word_of_int c, None))
    \<and> (\<forall>h' n. Seek h off whence = (h', n, None) \<longrightarrow>
          sint n = candidate (int (length (contents (File_f h)))) (sint (File_offset h)) (sint off) whence
          \<and> File_offset h' = n)"
proof -
  let ?sz = "int (length (contents (File_f h)))"
  let ?c = "candidate ?sz (sint (File_offset h)) (sint off) whence"
  let ?w = "word_of_int ?c :: 64 word"
  have eq: "Seek h off whence =
     (if sint maxSize < sint off then (h, 0, Some (InvalidTargetOffset off))
      else if whence \<notin> {SeekStart, SeekCurrent, SeekEnd}
      then (h, 0, Some (InvalidSeekWhence whence))
      else if sint maxSize < ?c \<or> ?c < 0 \<or> ?sz < ?c
      then (h, 0, Some (InvalidTargetOffset ?w))
      else (h\<lparr>File_offset := ?w\<rparr>, ?w, None))"
  proof (cases "maxSize <s off")
    case True
    then show ?thesis by (simp add: Seek_large_offset word_sless_alt)
  next
    case small: False
    show ?thesis
    proof (cases "whence \<in> {SeekStart, SeekCurrent, SeekEnd}")
      case False
      with small Seek_bad_whence[of off whence h] show ?thesis
        by (simp add: word_sless_alt)
    next
      case True
      from Seek_in_range[OF assms small True] small True show ?thesis
        by (simp add: Let_def word_sless_alt)
    qed
  qed
  have ok: "sint n = ?c \<and> File_offset h' = n" if r: "Seek h off whence = (h', n, None)" for h' n
  proof -
    have 1: "\<not> maxSize <s off"
    proof
      assume "maxSize <s off"
      from Seek_large_offset[OF this, of h whence] r show False by simp
    qed
    have 2: "whence \<in> {SeekStart, SeekCurrent, SeekEnd}"
    proof (rule ccontr)
      assume "whence \<notin> {SeekStart, SeekCurrent, SeekEnd}"
      from Seek_bad_whence[OF 1 this, of h] r show False by simp
    qed
    note s = Seek_in_range[OF assms 1 2, unfolded Let_def]
    have 3: "\<not> (sint maxSize < ?c \<or> ?c < 0 \<or> ?sz < ?c)"
    proof
      assume "sint maxSize < ?c \<or> ?c < 0 \<or> ?sz < ?c"
      then have "Seek h off whence = (h, 0, Some (InvalidTargetOffset ?w))"
        by (simp only: s if_True)
      with r show False by simp
    qed
    then have 4: "Seek h off whence = (h\<lparr>File_offset := ?w\<rparr>, ?w, None)"
      by (simp only: s if_False)
    from 3 have "sint ?w = ?c" using sint_exact64[of ?c] by (simp add: sint_maxSize)
    with 4 r show ?thesis by simp
  qed
  show ?thesis
    unfolding Let_def
  proof (intro conjI allI impI)
    show "Seek h off whence =
     (if sint maxSize < sint off then (h, 0, Some (InvalidTargetOffset off))
      else if whence \<notin> {SeekStart, SeekCurrent, SeekEnd}
      then (h, 0, Some (InvalidSeekWhence whence))
      else if sint maxSize < ?c \<or> ?c < 0 \<or> ?sz < ?c
      then (h, 0, Some (InvalidTargetOffset ?w))
      else (h\<lparr>File_offset := ?w\<rparr>, ?w, None))" by (rule eq)
  next
    fix h' n assume "Seek h off whence = (h', n, None)"
    then show "sint n = ?c" using ok by blast
  next
    fix h' n assume "Seek h off whence = (h', n, None)"
    then show "File_offset h' = n" using ok by blast
  qed
qed

text \<open>
  Witness for C1 on the handle of Scenario A (size 2, cursor 0): seeks from the end, from
  the current position and from the start, a candidate beyond the size, a negative input
  offset whose candidate \<open>2 + 2^63\<close> does not fit 64 bits, and an unknown \<open>whence\<close>.
\<close>

theorem Seek_candidate_witness:
  "go_slice (contents (File_f hello_handle)) \<and> offset_inv hello_handle
   \<and> Seek hello_handle 0 SeekEnd = (hello_handle\<lparr>File_offset := 2\<rparr>, 2, None)
   \<and> Seek hello_handle 1 SeekCurrent = (hello_handle\<lparr>File_offset := 1\<rparr>, 1, None)
   \<and> Seek hello_handle 3 SeekStart = (hello_handle, 0, Some (InvalidTargetOffset 3))
   \<and> Seek hello_handle (- 1) SeekEnd = (hello_handle, 0, Some (InvalidTargetOffset 3))
   \<and> Seek hello_handle (- 9223372036854775808) SeekEnd =
        (hello_handle, 0, Some (InvalidTargetOffset (- 9223372036854775806)))
   \<and> Seek hello_handle 0 7 = (hello_handle, 0, Some (InvalidSeekWhence 7))"
proof -
  note s = Seek_candidate[OF hello_go_slice hello_offset_inv, THEN conjunct1]
  have 1: "Seek hello_handle 0 SeekEnd = (hello_handle\<lparr>File_offset := 2\<rparr>, 2, None)"
    using s[of 0 SeekEnd] by (simp add: seek_eval)
  have 2: "Seek hello_handle 1 SeekCurrent = (hello_handle\<lparr>File_offset := 1\<rparr>, 1, None)"
    using s[of 1 SeekCurrent] by (simp add: seek_eval)
  have 3: "Seek hello_handle 3 SeekStart = (hello_handle, 0, Some (InvalidTargetOffset 3))"
    using s[of 3 SeekStart] by (simp add: seek_eval)
  have 4: "Seek hello_handle (- 1) SeekEnd = (hello_handle, 0, Some (InvalidTargetOffset 3))"
    using s[of "- 1" SeekEnd] by (simp add: seek_eval)
  have 5: "Seek hello_handle (- 9223372036854775808) SeekEnd =
        (hello_handle, 0, Some (InvalidTargetOffset (- 9223372036854775806)))"
    using s[of "- 9223372036854775808" SeekEnd] by (simp add: seek_eval)
  have 6: "Seek hello_handle 0 7 = (hello_handle, 0, Some (InvalidSeekWhence 7))"
    using s[of 0 7] by (simp add: seek_eval)
  from 1 2 3 4 5 6 hello_go_slice hello_offset_inv show ?thesis by simp
qed

text \<open>
  C1 as stated, where any other \<open>whence\<close> fails with the invalid-whence error whatever the
  input offset is, fails on the code: with the input offset \<open>2^31\<close> and the \<open>whence\<close> 3,
  which is none of the three, \<open>Seek\<close> fails with the invalid-offset error.
\<close>

theorem Seek_unknown_whence_large_offset:
  "(3 :: go_int) \<notin> {SeekStart, SeekCurrent, SeekEnd}
   \<and> Seek hello_handle 2147483648 3 = (hello_handle, 0, Some (InvalidTargetOffset 2147483648))
   \<and> Seek hello_handle 2147483648 3 \<noteq> (hello_handle, 0, Some (InvalidSeekWhence 3))"
  by (simp add: Seek_def maxSize_def word_sless_alt SeekStart_def SeekCurrent_def SeekEnd_def)

text \<open>
  C2. On a handle that satisfies the invariant, \<open>Read(b)\<close> with
  \<open>available = size - offset\<close> returns \<open>(0, io.EOF)\<close> when \<open>available = 0\<close>, whatever
  the length of \<open>b\<close>, and leaves handle and buffer as they were; when \<open>available > 0\<close> it
  copies exactly \<open>min available (len b)\<close> bytes from the cursor on into the front of \<open>b\<close>,
  advances the offset by that count without wrap-around, and returns the count with no
  error (so \<open>(0, nil)\<close> for an empty buffer).
\<close>

theorem Read_copies_available:
  assumes "go_slice (contents (File_f h))" and "go_slice b" and "offset_inv h"
  shows "(available h = 0 \<longrightarrow> Read h b = Some (h, b, 0, Some EOF))
       \<and> (0 < available h \<longrightarrow>
            Read h b =
              Some (h\<lparr>File_offset := File_offset h + of_nat (copied h b)\<rparr>,
                    take (copied h b) (drop (cursor h) (contents (File_f h))) @ drop (copied h b) b,
                    of_nat (copied h b), None)
            \<and> copied h b = min (available h) (length b)
            \<and> sint (of_nat (copied h b) :: go_int) = int (copied h b)
            \<and> sint (File_offset h + of_nat (copied h b)) = sint (File_offset h) + int (copied h b))"
proof -
  have le: "cursor h \<le> length (contents (File_f h))"
    using assms(3) unfolding offset_inv_def cursor_def by linarith
  have off: "File_offset h = of_nat (cursor h)"
    using nonneg_word64[of "File_offset h"] assms(3) by (simp add: offset_inv_def cursor_def)
  have sc: "sint (File_offset h) = int (cursor h)"
    using assms(3) by (simp add: offset_inv_def cursor_def)
  have n63: "copied h b < 2 ^ 63"
    using assms(2) by (simp add: copied_def go_slice_def)
  have "cursor h + copied h b \<le> length (contents (File_f h))"
    using le by (simp add: copied_def available_def)
  then have cn63: "cursor h + copied h b < 2 ^ 63"
    using assms(1) by (simp add: go_slice_def)
  have sum: "File_offset h + of_nat (copied h b) = of_nat (cursor h + copied h b)"
    using off by simp
  have s1: "sint (of_nat (copied h b) :: go_int) = int (copied h b)"
    using n63 by (rule sint_of_nat64)
  have s2: "sint (File_offset h + of_nat (copied h b)) = sint (File_offset h) + int (copied h b)"
    unfolding sum sc using sint_of_nat64[OF cn63] by simp
  show ?thesis
  proof (intro conjI impI)
    assume "available h = 0"
    then show "Read h b = Some (h, b, 0, Some EOF)"
      using Read_eq[OF assms] by simp
  next
    assume "0 < available h"
    then show "Read h b =
              Some (h\<lparr>File_offset := File_offset h + of_nat (copied h b)\<rparr>,
                    take (copied h b) (drop (cursor h) (contents (File_f h))) @ drop (copied h b) b,
                    of_nat (copied h b), None)"
      unfolding sum using Read_eq[OF assms] by simp
  next
    show "copied h b = min (available h) (length b)" by (simp add: copied_def)
  next
    show "sint (of_nat (copied h b) :: go_int) = int (copied h b)" by (rule s1)
  next
    show "sint (File_offset h + of_nat (copied h b)) = sint (File_offset h) + int (copied h b)"
      by (rule s2)
  qed
qed

text \<open>
  Witness for C2 on the handle of Scenario A, at cursor 0 and at cursor 2, with a buffer
  of three bytes and with an empty buffer.
\<close>

theorem Read_copies_available_witness:
  "go_slice (contents (File_f hello_handle)) \<and> go_slice [0, 0, 0 :: byte] \<and> go_slice ([] :: byte list)
   \<and> offset_inv hello_handle \<and> offset_inv (hello_handle\<lparr>File_offset := 2\<rparr>)
   \<and> Read hello_handle [0, 0, 0] = Some (hello_handle\<lparr>File_offset := 2\<rparr>, [104, 105, 0], 2, None)
   \<and> Read hello_handle [] = Some (hello_handle, [], 0, None)
   \<and> Read (hello_handle\<lparr>File_offset := 2\<rparr>) [0, 0, 0] =
        Some (hello_handle\<lparr>File_offset := 2\<rparr>, [0, 0, 0], 0, Some EOF)
   \<and> Read (hello_handle\<lparr>File_offset := 2\<rparr>) [] =
        Some (hello_handle\<lparr>File_offset := 2\<rparr>, [], 0, Some EOF)"
proof -
  let ?h2 = "hello_handle\<lparr>File_offset := 2\<rparr>"
  have g2: "go_slice (contents (File_f ?h2))" using hello_go_slice by simp
  have i2: "offset_inv ?h2" by (simp add: offset_inv_def hello_fields)
  have b3: "go_slice [0, 0, 0 :: byte]" and b0: "go_slice ([] :: byte list)"
    by (simp_all add: go_slice_def)
  have a0: "available hello_handle = 2" "cursor hello_handle = 0"
    by (simp_all add: available_def cursor_def hello_fields)
  have a2: "available ?h2 = 0"
    by (simp add: available_def cursor_def hello_fields)
  have "Read hello_handle [0, 0, 0] = Some (?h2, [104, 105, 0], 2, None)"
    using Read_copies_available[OF hello_go_slice b3 hello_offset_inv]
    by (simp add: a0 copied_def hello_fields)
  moreover have "Read hello_handle [] = Some (hello_handle, [], 0, None)"
    using Read_copies_available[OF hello_go_slice b0 hello_offset_inv]
    by (simp add: a0 copied_def hello_fields[symmetric])
  moreover have "Read ?h2 [0, 0, 0] = Some (?h2, [0, 0, 0], 0, Some EOF)"
    using Read_copies_available[OF g2 b3 i2] by (simp add: a2)
  moreover have "Read ?h2 [] = Some (?h2, [], 0, Some EOF)"
    using Read_copies_available[OF g2 b0 i2] by (simp add: a2)
  ultimately show ?thesis using hello_go_slice hello_offset_inv i2 b3 b0 by simp
qed

text \<open>
  C3. \<open>Open(path, version)\<close> fails with the not-found error exactly when \<open>path\<close> is not
  a key of the table; on a key, a non-empty \<open>version\<close> that differs from the entry's fails
  with the version-mismatch error; an empty \<open>version\<close>, or the entry's own, gives a handle
  on the entry with offset 0.
\<close>

theorem Open_lookup_and_version:
  "((\<exists>q. Open store p v = Inl (FileNotFound q)) \<longleftrightarrow> store p = None)
   \<and> (store p = None \<longrightarrow> Open store p v = Inl (FileNotFound p))
   \<and> (\<forall>e. store p = Some e \<longrightarrow>
         (v \<noteq> [] \<and> version e \<noteq> v \<longrightarrow> Open store p v = Inl (VersionMismatch v (version e) p))
       \<and> (v = [] \<or> version e = v \<longrightarrow>
            Open store p v = Inr \<lparr>File_f = e, File_path = p, File_offset = 0\<rparr>))"
  by (auto simp: Open_def split: option.splits)

text \<open>
  Witness for C3 on the table of Scenario A.
\<close>

theorem Open_lookup_and_version_witness:
  "Open hello_store ''/docs/hello.txt'' [] = Inr hello_handle
   \<and> Open hello_store ''/docs/hello.txt'' ''013b00d2'' = Inr hello_handle
   \<and> Open hello_store ''/docs/hello.txt'' ''wrong'' =
        Inl (VersionMismatch ''wrong'' ''013b00d2'' ''/docs/hello.txt'')
   \<and> Open hello_store ''/docs/other.txt'' [] = Inl (FileNotFound ''/docs/other.txt'')"
proof -
  have s: "hello_store ''/docs/hello.txt'' = Some hello_entry"
    and n: "hello_store ''/docs/other.txt'' = None"
    by (simp_all add: hello_store_def)
  have v: "version hello_entry = ''013b00d2''" by (simp add: hello_entry_def)
  note o = Open_lookup_and_version[of hello_store]
  have "Open hello_store ''/docs/hello.txt'' [] = Inr hello_handle"
    using o[of "''/docs/hello.txt''" "[]"] s by (simp add: hello_handle_def)
  moreover have "Open hello_store ''/docs/hello.txt'' ''013b00d2'' = Inr hello_handle"
    using o[of "''/docs/hello.txt''" "''013b00d2''"] s v by (simp add: hello_handle_def)
  moreover have "Open hello_store ''/docs/hello.txt'' ''wrong'' =
        Inl (VersionMismatch ''wrong'' ''013b00d2'' ''/docs/hello.txt'')"
    using o[of "''/docs/hello.txt''" "''wrong''"] s v by simp
  moreover have "Open hello_store ''/docs/other.txt'' [] = Inl (FileNotFound ''/docs/other.txt'')"
    using o[of "''/docs/other.txt''" "[]"] n by simp
  ultimately show ?thesis by simp
qed

text \<open>
  C4. The invariant \<open>0 \<le> offset \<le> size\<close> holds for the handle \<open>Open\<close> returns, whose
  offset is 0, and after each operation of every sequence of reads and seeks on it, none
  of which panics. \<open>Read\<close> and \<open>Seek\<close> each preserve the invariant on any handle, and a
  \<open>Seek\<close> that returns an error leaves the handle unchanged.
\<close>

theorem offset_invariant_preserved:
  assumes "Open store p v = Inr h" and "go_slice (contents (File_f h))" and "buffers_ok ops"
  shows "File_offset h = 0 \<and> offset_inv h
       \<and> (\<exists>hs. run h ops = Some hs \<and> length hs = length ops \<and> (\<forall>h'\<in>set hs. offset_inv h'))
       \<and> (\<forall>g b. go_slice (contents (File_f g)) \<and> go_slice b \<and> offset_inv g \<longrightarrow>
             (\<exists>g' b' n e. Read g b = Some (g', b', n, e) \<and> offset_inv g'))
       \<and> (\<forall>g off whence. go_slice (contents (File_f g)) \<and> offset_inv g \<longrightarrow>
             offset_inv (fst (Seek g off whence))
             \<and> (snd (snd (Seek g off whence)) \<noteq> None \<longrightarrow> fst (Seek g off whence) = g))"
proof (intro conjI allI impI)
  show "File_offset h = 0" using Open_Inr[OF assms(1)] by simp
  show i: "offset_inv h" using Open_Inr[OF assms(1)] by simp
  show "\<exists>hs. run h ops = Some hs \<and> length hs = length ops \<and> (\<forall>h'\<in>set hs. offset_inv h')"
    using run_inv[OF assms(2) i assms(3)] .
next
  fix g and b :: "byte list" assume "go_slice (contents (File_f g)) \<and> go_slice b \<and> offset_inv g"
  then show "\<exists>g' b' n e. Read g b = Some (g', b', n, e) \<and> offset_inv g'"
    using Read_inv[of g b] by blast
next
  fix g off whence assume a: "go_slice (contents (File_f g)) \<and> offset_inv g"
  then show "offset_inv (fst (Seek g off whence))"
    using Seek_inv[of g off whence] by blast
  assume "snd (snd (Seek g off whence)) \<noteq> None"
  then show "fst (Seek g off whence) = g"
    using a Seek_inv[of g off whence] by blast
qed

text \<open>
  Witness for C4: the handle of Scenario A under a sequence of five operations.
\<close>

theorem offset_invariant_preserved_witness:
  "Open hello_store ''/docs/hello.txt'' [] = Inr hello_handle
   \<and> go_slice (contents (File_f hello_handle)) \<and> buffers_ok hello_ops
   \<and> File_offset hello_handle = 0 \<and> offset_inv hello_handle
   \<and> (\<exists>hs. run hello_handle hello_ops = Some hs \<and> length hs = length hello_ops
          \<and> (\<forall>h'\<in>set hs. offset_inv h'))"
proof -
  have o: "Open hello_store ''/docs/hello.txt'' [] = Inr hello_handle"
    by (simp add: Open_def hello_store_def hello_handle_def)
  have b: "buffers_ok hello_ops" by (simp add: hello_ops_def go_slice_def)
  from offset_invariant_preserved[OF o hello_go_slice b] o hello_go_slice b
  show ?thesis by blast
qed

text \<open>
  C9. \<open>Seek\<close> with an input offset above \<open>maxSize\<close> fails with the invalid-offset error
  whatever \<open>whence\<close> is, valid or not; the invalid-whence error is returned only for an
  input offset at most \<open>maxSize\<close>, and then for an unknown \<open>whence\<close>. No assumption on
  the handle is needed.
\<close>

theorem Seek_offset_bound_first:
  "(maxSize <s off \<longrightarrow> Seek h off whence = (h, 0, Some (InvalidTargetOffset off)))
   \<and> (\<forall>w. snd (snd (Seek h off whence)) = Some (InvalidSeekWhence w) \<longrightarrow>
         off \<le>s maxSize \<and> w = whence \<and> whence \<notin> {SeekStart, SeekCurrent, SeekEnd})"
proof (intro conjI allI impI)
  assume "maxSize <s off"
  then show "Seek h off whence = (h, 0, Some (InvalidTargetOffset off))"
    by (rule Seek_large_offset)
next
  fix w assume r: "snd (snd (Seek h off whence)) = Some (InvalidSeekWhence w)"
  have 1: "\<not> maxSize <s off"
  proof
    assume "maxSize <s off"
    from Seek_large_offset[OF this, of h whence] r show False by simp
  qed
  then show "off \<le>s maxSize" by (simp add: word_sless_alt word_sle_eq)
  have 2: "whence \<notin> {SeekStart, SeekCurrent, SeekEnd}"
  proof
    assume "whence \<in> {SeekStart, SeekCurrent, SeekEnd}"
    then have "snd (snd (Seek h off whence)) = None
             \<or> (\<exists>n. snd (snd (Seek h off whence)) = Some (InvalidTargetOffset n))"
      using 1 by (auto simp: Seek_def Let_def)
    with r show False by auto
  qed
  then show "whence \<notin> {SeekStart, SeekCurrent, SeekEnd}" .
  from Seek_bad_whence[OF 1 2, of h] r show "w = whence" by simp
qed

text \<open>
  Witness for C9: the unknown \<open>whence\<close> 7 with the input offsets \<open>2^31\<close> and \<open>2^31 - 1\<close>.
\<close>

theorem Seek_offset_bound_first_witness:
  "Seek hello_handle 2147483648 7 = (hello_handle, 0, Some (InvalidTargetOffset 2147483648))
   \<and> Seek hello_handle 2147483647 7 = (hello_handle, 0, Some (InvalidSeekWhence 7))
   \<and> (2147483647 :: int64) \<le>s maxSize"
proof -
  have m: "maxSize <s 2147483648" by (simp add: maxSize_def word_sless_alt)
  have s: "Seek hello_handle 2147483647 7 = (hello_handle, 0, Some (InvalidSeekWhence 7))"
    by (simp add: Seek_def maxSize_def word_sless_alt SeekStart_def SeekCurrent_def SeekEnd_def)
  from Seek_offset_bound_first[of 2147483648 hello_handle 7] m
  have "Seek hello_handle 2147483648 7 = (hello_handle, 0, Some (InvalidTargetOffset 2147483648))"
    by simp
  moreover from Seek_offset_bound_first[of 2147483647 hello_handle 7] s
  have "(2147483647 :: int64) \<le>s maxSize" by simp
  ultimately show ?thesis using s by simp
qed

text \<open>
  C10. \<open>Open\<close> looks its path argument up as it is: for every string that is not itself
  a key of the table it fails with the not-found error, whatever keys the table has.
\<close>

theorem Open_exact_key:
  "store p = None \<Longrightarrow> Open store p v = Inl (FileNotFound p)"
  by (simp add: Open_def)

text \<open>
  Witness for C10: paths that differ from the key \<open>/docs/hello.txt\<close> by a doubled
  slash, a \<open>.\<close> segment, a trailing slash or the missing leading slash.
\<close>

theorem Open_exact_key_witness:
  "hello_store ''/docs/hello.txt'' \<noteq> None
   \<and> Open hello_store ''/docs//hello.txt'' [] = Inl (FileNotFound ''/docs//hello.txt'')
   \<and> Open hello_store ''/docs/./hello.txt'' [] = Inl (FileNotFound ''/docs/./hello.txt'')
   \<and> Open hello_store ''/docs/hello.txt/'' [] = Inl (FileNotFound ''/docs/hello.txt/'')
   \<and> Open hello_store ''docs/hello.txt'' ''013b00d2'' = Inl (FileNotFound ''docs/hello.txt'')"
proof -
  have 1: "Open hello_store ''/docs//hello.txt'' [] = Inl (FileNotFound ''/docs//hello.txt'')"
    using Open_exact_key[of hello_store "''/docs//hello.txt''" "[]"]
    by (simp add: hello_store_def)
  have 2: "Open hello_store ''/docs/./hello.txt'' [] = Inl (FileNotFound ''/docs/./hello.txt'')"
    using Open_exact_key[of hello_store "''/docs/./hello.txt''" "[]"]
    by (simp add: hello_store_def)
  have 3: "Open hello_store ''/docs/hello.txt/'' [] = Inl (FileNotFound ''/docs/hello.txt/'')"
    using Open_exact_key[of hello_store "''/docs/hello.txt/''" "[]"]
    by (simp add: hello_store_def)
  have 4: "Open hello_store ''docs/hello.txt'' ''013b00d2'' = Inl (FileNotFound ''docs/hello.txt'')"
    using Open_exact_key[of hello_store "''docs/hello.txt''" "''013b00d2''"]
    by (simp add: hello_store_def)
  have "hello_store ''/docs/hello.txt'' \<noteq> None" by (simp add: hello_store_def)
  with 1 2 3 4 show ?thesis by simp
qed

section \<open>Properties of the generator\<close>

subsection \<open>The checksum\<close>

lemma hash_Write_append: "hash_Write (hash_Write d a) b = hash_Write d (a @ b)"
  by (simp add: hash_Write_def)

lemma byte_sum_snoc: "byte_sum (bs @ [x]) = byte_sum bs + unat x"
  by (simp add: byte_sum_def)

lemma adler_A_snoc: "adler_A (bs @ [x]) = (adler_A bs + unat x) mod 65521"
  by (simp add: adler_A_def byte_sum_snoc mod_add_left_eq add.assoc)

lemma prefix_sums_snoc:
  "(\<Sum>k\<leftarrow>[0..<length (bs @ [x])]. 1 + byte_sum (take (Suc k) (bs @ [x]))) =
   (\<Sum>k\<leftarrow>[0..<length bs]. 1 + byte_sum (take (Suc k) bs)) + (1 + byte_sum bs + unat x)"
proof -
  have m: "map (\<lambda>k. 1 + byte_sum (take (Suc k) (bs @ [x]))) [0..<length bs] =
        map (\<lambda>k. 1 + byte_sum (take (Suc k) bs)) [0..<length bs]"
    by (rule map_cong) auto
  have "[0..<length (bs @ [x])] = [0..<length bs] @ [length bs]" by simp
  then have "(\<Sum>k\<leftarrow>[0..<length (bs @ [x])]. 1 + byte_sum (take (Suc k) (bs @ [x]))) =
        sum_list (map (\<lambda>k. 1 + byte_sum (take (Suc k) (bs @ [x]))) [0..<length bs])
          + (1 + byte_sum (take (Suc (length bs)) (bs @ [x])))"
    by (simp only: map_append sum_list_append list.map sum_list.Cons sum_list.Nil add_0_right)
  also have "\<dots> = (\<Sum>k\<leftarrow>[0..<length bs]. 1 + byte_sum (take (Suc k) bs)) + (1 + byte_sum bs + unat x)"
    unfolding m by (simp add: byte_sum_snoc)
  finally show ?thesis .
qed

lemma mod_add_nested:
  "((s::nat) + (z + x)) mod m = (s mod m + (z mod m + x) mod m) mod m"
proof -
  have "(s + (z + x)) mod m = (s mod m + (z + x) mod m) mod m"
    by (rule mod_add_eq[symmetric])
  also have "(z + x) mod m = (z mod m + x) mod m"
    by (rule mod_add_left_eq[symmetric])
  finally show ?thesis .
qed

lemma adler_B_snoc: "adler_B (bs @ [x]) = (adler_B bs + (adler_A bs + unat x) mod 65521) mod 65521"
proof -
  define S where "S = (\<Sum>k\<leftarrow>[0..<length bs]. 1 + byte_sum (take (Suc k) bs))"
  have "adler_B (bs @ [x]) = (S + ((1 + byte_sum bs) + unat x)) mod 65521"
    unfolding adler_B_def prefix_sums_snoc S_def ..
  also have "\<dots> = (S mod 65521 + ((1 + byte_sum bs) mod 65521 + unat x) mod 65521) mod 65521"
    by (rule mod_add_nested)
  finally show ?thesis by (simp only: adler_B_def adler_A_def S_def)
qed

lemma hash_Write_closed: "hash_Write adler32_New bs = (adler_A bs, adler_B bs)"
proof (induction bs rule: rev_induct)
  case Nil
  show ?case by (simp add: hash_Write_def adler32_New_def adler_A_def adler_B_def byte_sum_def)
next
  case (snoc x bs)
  have "hash_Write adler32_New (bs @ [x]) = adler_step x (hash_Write adler32_New bs)"
    by (simp add: hash_Write_def)
  also have "\<dots> = adler_step x (adler_A bs, adler_B bs)" by (simp only: snoc.IH)
  also have "\<dots> = (adler_A (bs @ [x]), adler_B (bs @ [x]))"
    by (simp add: adler_step_def adler_mod_def adler_A_snoc adler_B_snoc)
  finally show ?case .
qed

lemma Sum32_closed: "Sum32 (hash_Write adler32_New bs) = adler32 bs"
  by (simp add: hash_Write_closed Sum32_def adler32_def)

text \<open>
  The rendering of the code, four bytes with two digits each, is the numeral of eight
  digits; and a numeral denotes the number it was made from.
\<close>

lemma hex_digit_value_char: "d < 16 \<Longrightarrow> hex_digit_value (hex_char d) = d"
  by (simp add: hex_digit_value_def hex_char_def)

lemma char_of_eqI: "of_char c = (n::nat) \<Longrightarrow> c = char_of n"
  by auto

lemma hexdigit_hex_char:
  assumes "d < 16"
  shows "hexdigit d = hex_char d"
proof -
  from assms have "d = 0 \<or> d = 1 \<or> d = 2 \<or> d = 3 \<or> d = 4 \<or> d = 5 \<or> d = 6
    \<or> d = 7 \<or> d = 8 \<or> d = 9 \<or> d = 10 \<or> d = 11 \<or> d = 12 \<or> d = 13 \<or> d = 14
    \<or> d = 15"
    by presburger
  then show ?thesis
    by (elim disjE) (auto simp add: hexdigit_def hex_char_def intro!: char_of_eqI)
qed

lemma hex_value_snoc: "hex_value (xs @ [c]) = 16 * hex_value xs + hex_digit_value c"
  by (simp add: hex_value_def)

lemma hex_value_hexn: "hex_value (hexn k n) = n mod 16 ^ k"
proof (induction k arbitrary: n)
  case 0
  show ?case by (simp add: hex_value_def)
next
  case (Suc k)
  have "hex_value (hexn (Suc k) n) = 16 * (n div 16 mod 16 ^ k) + n mod 16"
    by (simp add: hex_value_snoc Suc.IH hex_digit_value_char)
  also have "\<dots> = n mod (16 * 16 ^ k)"
    by (simp add: mod_mult2_eq)
  finally show ?case by simp
qed

lemma hexn_add: "hexn (j + k) n = hexn j (n div 16 ^ k) @ hexn k n"
proof (induction k arbitrary: n)
  case 0
  show ?case by simp
next
  case (Suc k)
  have "n div 16 div 16 ^ k = n div 16 ^ Suc k"
    by (simp add: div_mult2_eq)
  with Suc.IH[of "n div 16"] show ?case by simp
qed

lemma hex_byte_hexn: "hex_byte (of_nat m) = hexn 2 m"
proof -
  have u: "unat (of_nat m :: byte) = m mod 256"
    by (simp add: unat_of_nat)
  have hi: "m mod 256 div 16 = m div 16 mod 16"
  proof -
    have "m mod (16 * 16) = 16 * (m div 16 mod 16) + m mod 16"
      by (rule mod_mult2_eq)
    then show ?thesis by simp
  qed
  have lo: "m mod 256 mod 16 = m mod 16"
    by (simp add: mod_mod_cancel)
  have "hexn 2 m = [hex_char (m div 16 mod 16), hex_char (m mod 16)]"
    by (simp add: numeral_2_eq_2)
  then show ?thesis
    by (simp add: hex_byte_def u hi lo hexdigit_hex_char)
qed

lemma Sprintf_x_be32: "Sprintf_x (be32 s) = hexn 8 s"
proof -
  have "hexn 8 s = hexn 2 (s div 16 ^ 6) @ hexn 6 s"
    using hexn_add[of 2 6 s] by simp
  also have "hexn 6 s = hexn 2 (s div 16 ^ 4) @ hexn 4 s"
    using hexn_add[of 2 4 s] by simp
  also have "hexn 4 s = hexn 2 (s div 16 ^ 2) @ hexn 2 s"
    using hexn_add[of 2 2 s] by simp
  finally show ?thesis
    by (simp add: Sprintf_x_def be32_def hex_byte_hexn)
qed

lemma adler32_bound: "adler32 bs < 4294967296"
proof -
  have "adler_A bs < 65521" and "adler_B bs < 65521"
    by (simp_all add: adler_A_def adler_B_def)
  then show ?thesis unfolding adler32_def by linarith
qed

lemma version_closed: "Sprintf_x (hash_Sum (hash_Write adler32_New bs)) = version_of bs"
  by (simp add: hash_Sum_def Sum32_closed version_of_def Sprintf_x_be32)

lemma version_value: "hex_value (version_of bs) = adler32 bs"
  using adler32_bound[of bs] by (simp add: version_of_def hex_value_hexn)

lemma hexdigit_lower: "n < 16 \<Longrightarrow> hexdigit n \<in> lower_hex"
  unfolding hexdigit_def lower_hex_def by (rule nth_mem) simp

lemma hex_byte_lower: "set (hex_byte b) \<subseteq> lower_hex"
proof -
  have "unat b < 256" using unsigned_less[of b] by simp
  then have "unat b div 16 < 16" by simp
  moreover have "unat b mod 16 < 16" by simp
  ultimately show ?thesis
    using hexdigit_lower[of "unat b div 16"] hexdigit_lower[of "unat b mod 16"]
    by (simp add: hex_byte_def)
qed

lemma length_Sprintf_x: "length (Sprintf_x bs) = 2 * length bs"
  by (induction bs) (simp_all add: Sprintf_x_def hex_byte_def)

lemma set_Sprintf_x: "set (Sprintf_x bs) \<subseteq> lower_hex"
  unfolding Sprintf_x_def using hex_byte_lower by auto

lemma length_be32: "length (be32 s) = 4"
  by (simp add: be32_def)

lemma version_of_shape: "length (version_of bs) = 8 \<and> set (version_of bs) \<subseteq> lower_hex"
  unfolding version_of_def Sprintf_x_be32[symmetric] using set_Sprintf_x[of "be32 (adler32 bs)"]
  by (simp only: length_Sprintf_x length_be32) simp

subsection \<open>The reading loop\<close>

lemma read_loop_ok:
  "read_loop src reads h wr tr = (h', wr', tr', None) \<Longrightarrow>
     h' = hash_Write h (file_bytes reads) \<and> ReadFails \<notin> set reads"
proof (induction src reads h wr tr rule: read_loop.induct)
  case (1 src h wr tr)
  then show ?case by (simp add: hash_Write_def)
next
  case (2 src rs h wr tr)
  then show ?case by simp
next
  case (3 src bs rs h wr tr)
  obtain wr1 e where wb: "write_bytes wr bs = (wr1, e)" by (cases "write_bytes wr bs")
  show ?case
  proof (cases e)
    case None
    with 3 wb show ?thesis by (simp add: hash_Write_append)
  next
    case (Some a)
    with "3.prems" wb show ?thesis by simp
  qed
qed

lemma write_bytes_no_faults:
  "faults wr = [] \<Longrightarrow> \<exists>wr'. write_bytes wr bs = (wr', None) \<and> faults wr' = []"
proof (induction bs arbitrary: wr)
  case Nil
  then show ?case by simp
next
  case (Cons b bs)
  let ?wr1 = "wr\<lparr>written := written wr @ decimal b @ '', ''\<rparr>"
  have f: "Fprintf wr (decimal b @ '', '') = (?wr1, None)"
    using Cons.prems by (simp add: Fprintf_def)
  have "faults ?wr1 = []" using Cons.prems by simp
  from Cons.IH[OF this] f show ?case by simp
qed

lemma read_loop_no_faults:
  "faults wr = [] \<Longrightarrow>
     \<exists>wr' tr'. read_loop src (map Chunk cs) h wr tr = (hash_Write h (concat cs), wr', tr', None)
               \<and> faults wr' = []"
proof (induction cs arbitrary: h wr tr)
  case Nil
  then show ?case by (simp add: hash_Write_def)
next
  case (Cons c cs)
  from write_bytes_no_faults[OF Cons.prems, of c]
  obtain wr1 where w: "write_bytes wr c = (wr1, None)" and f: "faults wr1 = []" by blast
  from Cons.IH[OF f, of "hash_Write h c" "tr @ [FileRead src]"] w
  show ?case by (simp add: hash_Write_append)
qed

lemma file_bytes_chunks: "file_bytes (map Chunk cs) = concat cs"
  by (induction cs) simp_all

subsection \<open>writeFile\<close>

lemma writeFile_dry:
  "vfs_w v = None \<Longrightarrow> writeFile fs v target src sz = (v, [], None)"
  by (simp add: writeFile_def)

lemma writeFile_too_big:
  "vfs_w v = Some wr \<Longrightarrow> maxSize <s sz \<Longrightarrow>
     writeFile fs v target src sz = (v, [], Some MaxSizeExceeded)"
  by (simp add: writeFile_def)

lemma read_loop_trace:
  "read_loop src reads h wr tr = (h', wr', tr', e) \<Longrightarrow>
     \<exists>more. tr' = tr @ more \<and> mapped more = [] \<and> more \<noteq> []"
proof (induction src reads h wr tr rule: read_loop.induct)
  case (1 src h wr tr)
  then show ?case by auto
next
  case (2 src rs h wr tr)
  then show ?case by auto
next
  case (3 src bs rs h wr tr)
  obtain wr1 e1 where wb: "write_bytes wr bs = (wr1, e1)" by (cases "write_bytes wr bs")
  show ?case
  proof (cases e1)
    case None
    with "3.prems" wb have "read_loop src rs (hash_Write h bs) wr1 (tr @ [FileRead src]) = (h', wr', tr', e)"
      by simp
    from "3.IH"[OF wb[symmetric, unfolded None] refl this]
    obtain more where "tr' = (tr @ [FileRead src]) @ more" "mapped more = []" by blast
    then have "tr' = tr @ (FileRead src # more) \<and> mapped (FileRead src # more) = []
               \<and> FileRead src # more \<noteq> []" by simp
    then show ?thesis by blast
  next
    case (Some a)
    with "3.prems" wb have "tr' = tr @ [FileRead src]" by simp
    then show ?thesis by auto
  qed
qed

lemma mapped_append: "mapped (xs @ ys) = mapped xs @ mapped ys"
  by (induction xs rule: mapped.induct) simp_all

lemma Fprintf_err: "Fprintf wr s = (wr', e) \<Longrightarrow> e = None \<or> e = Some WriteError"
  by (auto simp: Fprintf_def split: list.splits if_splits)

lemma write_bytes_err: "write_bytes wr bs = (wr', e) \<Longrightarrow> e = None \<or> e = Some WriteError"
proof (induction bs arbitrary: wr)
  case Nil
  then show ?case by simp
next
  case (Cons b bs)
  obtain w1 e1 where f: "Fprintf wr (decimal b @ '', '') = (w1, e1)"
    by (cases "Fprintf wr (decimal b @ '', '')")
  show ?case
  proof (cases e1)
    case None
    with Cons f show ?thesis by simp
  next
    case (Some a)
    with Cons.prems f Fprintf_err[OF f] show ?thesis by auto
  qed
qed

lemma read_loop_err:
  "read_loop src reads h wr tr = (h', wr', tr', e) \<Longrightarrow>
     e = None \<or> e = Some WriteError \<or> e = Some ReadError"
proof (induction src reads h wr tr rule: read_loop.induct)
  case (1 src h wr tr)
  then show ?case by simp
next
  case (2 src rs h wr tr)
  then show ?case by simp
next
  case (3 src bs rs h wr tr)
  obtain w1 e1 where wb: "write_bytes wr bs = (w1, e1)" by (cases "write_bytes wr bs")
  show ?case
  proof (cases e1)
    case None
    with 3 wb show ?thesis by simp
  next
    case (Some a)
    with "3.prems" wb write_bytes_err[OF wb] show ?thesis by auto
  qed
qed

lemma writeFile_small:
  assumes w: "vfs_w v = Some wr" and small: "\<not> maxSize <s sz"
  shows "snd (snd (writeFile fs v target src sz)) \<noteq> Some MaxSizeExceeded
       \<and> (\<exists>more. vfs_trace (fst (writeFile fs v target src sz)) = vfs_trace v @ OsOpen src # more)"
proof (cases "os_Open fs src")
  case OpenFails
  then show ?thesis using w small by (simp add: writeFile_def emit_def)
next
  case (Opens reads)
  obtain wr1 e1 where f1: "Fprintf wr (entry_open target) = (wr1, e1)"
    by (cases "Fprintf wr (entry_open target)")
  have we: "e1 = None \<or> e1 = Some WriteError"
    using f1 by (rule Fprintf_err)
  show ?thesis
  proof (cases e1)
    case (Some a)
    with we have "e1 = Some WriteError" by simp
    then show ?thesis using w small Opens f1 by (simp add: writeFile_def)
  next
    case None
    obtain h wr2 tr e2 where rl:
      "read_loop src reads adler32_New wr1 (vfs_trace v @ [OsOpen src]) = (h, wr2, tr, e2)"
      by (cases "read_loop src reads adler32_New wr1 (vfs_trace v @ [OsOpen src])") auto
    from read_loop_trace[OF rl] obtain more where
      tr: "tr = (vfs_trace v @ [OsOpen src]) @ more" by blast
    have e2: "e2 \<noteq> Some MaxSizeExceeded"
      using read_loop_err[OF rl] by auto
    show ?thesis
    proof (cases e2)
      case (Some a)
      then show ?thesis using w small Opens f1 None rl tr e2 by (simp add: writeFile_def)
    next
      case n2: None
      obtain wr3 e3 where f3: "Fprintf wr2 (entry_close (Sprintf_x (hash_Sum h))) = (wr3, e3)"
        by (cases "Fprintf wr2 (entry_close (Sprintf_x (hash_Sum h)))")
      have "e3 = None \<or> e3 = Some WriteError"
        using f3 by (rule Fprintf_err)
      then show ?thesis using w small Opens f1 None rl tr n2 f3 by (auto simp: writeFile_def)
    qed
  qed
qed

lemma writeFile_ok:
  assumes w: "vfs_w v = Some wr" and ok: "writeFile fs v target src sz = (v', ver, None)"
  shows "\<not> maxSize <s sz
       \<and> (\<exists>reads. os_Open fs src = Opens reads \<and> ReadFails \<notin> set reads
                  \<and> ver = version_of (file_bytes reads))"
proof -
  have small: "\<not> maxSize <s sz"
    using writeFile_too_big[OF w, of sz fs target src] ok by auto
  show ?thesis
  proof (cases "os_Open fs src")
    case OpenFails
    then show ?thesis using w small ok by (simp add: writeFile_def)
  next
    case (Opens reads)
    obtain wr1 e1 where f1: "Fprintf wr (entry_open target) = (wr1, e1)"
      by (cases "Fprintf wr (entry_open target)")
    have e1: "e1 = None"
      using w small Opens f1 ok by (cases e1) (simp_all add: writeFile_def)
    obtain h wr2 tr e2 where rl:
      "read_loop src reads adler32_New wr1 (vfs_trace v @ [OsOpen src]) = (h, wr2, tr, e2)"
      by (cases "read_loop src reads adler32_New wr1 (vfs_trace v @ [OsOpen src])") auto
    have e2: "e2 = None"
      using w small Opens f1 e1 rl ok by (cases e2) (simp_all add: writeFile_def)
    obtain wr3 e3 where f3: "Fprintf wr2 (entry_close (Sprintf_x (hash_Sum h))) = (wr3, e3)"
      by (cases "Fprintf wr2 (entry_close (Sprintf_x (hash_Sum h)))")
    have ver: "ver = Sprintf_x (hash_Sum h)"
      using w small Opens f1 e1 rl e2 f3 ok by (simp add: writeFile_def)
    from read_loop_ok[OF rl[unfolded e2]]
    have "h = hash_Write adler32_New (file_bytes reads)" and nf: "ReadFails \<notin> set reads"
      by simp_all
    with ver have "ver = version_of (file_bytes reads)" by (simp add: version_closed)
    with small Opens nf show ?thesis by simp
  qed
qed

lemma writeFile_total:
  assumes w: "vfs_w v = Some wr" and nf: "faults wr = []" and small: "\<not> maxSize <s sz"
    and op: "os_Open fs src = Opens (map Chunk cs)"
  shows "\<exists>v'. writeFile fs v target src sz = (v', version_of (concat cs), None)"
proof -
  let ?wr1 = "wr\<lparr>written := written wr @ entry_open target\<rparr>"
  have f1: "Fprintf wr (entry_open target) = (?wr1, None)"
    using nf by (simp add: Fprintf_def)
  have "faults ?wr1 = []" using nf by simp
  from read_loop_no_faults[OF this, of src cs adler32_New "vfs_trace v @ [OsOpen src]"]
  obtain wr2 tr where rl: "read_loop src (map Chunk cs) adler32_New ?wr1 (vfs_trace v @ [OsOpen src])
       = (hash_Write adler32_New (concat cs), wr2, tr, None)" and f2: "faults wr2 = []"
    by blast
  let ?ver = "Sprintf_x (hash_Sum (hash_Write adler32_New (concat cs)))"
  have f3: "Fprintf wr2 (entry_close ?ver) = (wr2\<lparr>written := written wr2 @ entry_close ?ver\<rparr>, None)"
    using f2 by (simp add: Fprintf_def)
  have "writeFile fs v target src sz =
          (v\<lparr>vfs_w := Some (wr2\<lparr>written := written wr2 @ entry_close ?ver\<rparr>),
             vfs_trace := tr @ [FileClose src]\<rparr>, ?ver, None)"
    using w small op f1 rl f3 by (simp add: writeFile_def)
  then show ?thesis by (simp add: version_closed)
qed

lemma writeFile_frame:
  "writeFile fs v target src sz = (v', ver, e) \<Longrightarrow>
     vfs_processed v' = vfs_processed v \<and> mapped (vfs_trace v') = mapped (vfs_trace v)"
proof (cases "vfs_w v")
  case None
  assume "writeFile fs v target src sz = (v', ver, e)"
  with None show ?thesis by (simp add: writeFile_def)
next
  case (Some wr)
  assume r: "writeFile fs v target src sz = (v', ver, e)"
  show ?thesis
  proof (cases "maxSize <s sz")
    case True
    with Some r show ?thesis by (simp add: writeFile_def)
  next
    case small: False
    show ?thesis
    proof (cases "os_Open fs src")
      case OpenFails
      with Some small r show ?thesis by (auto simp: writeFile_def emit_def mapped_append)
    next
      case (Opens reads)
      obtain wr1 e1 where f1: "Fprintf wr (entry_open target) = (wr1, e1)"
        by (cases "Fprintf wr (entry_open target)")
      show ?thesis
      proof (cases e1)
        case (Some a)
        with \<open>vfs_w v = Some wr\<close> small Opens f1 r show ?thesis
          by (auto simp: writeFile_def mapped_append)
      next
        case None
        obtain h wr2 tr e2 where rl:
          "read_loop src reads adler32_New wr1 (vfs_trace v @ [OsOpen src]) = (h, wr2, tr, e2)"
          by (cases "read_loop src reads adler32_New wr1 (vfs_trace v @ [OsOpen src])") auto
        from read_loop_trace[OF rl] obtain more where
          "tr = (vfs_trace v @ [OsOpen src]) @ more" "mapped more = []" by blast
        then have m: "mapped (tr @ [FileClose src]) = mapped (vfs_trace v)"
          by (simp add: mapped_append)
        obtain wr3 e3 where f3: "Fprintf wr2 (entry_close (Sprintf_x (hash_Sum h))) = (wr3, e3)"
          by (cases "Fprintf wr2 (entry_close (Sprintf_x (hash_Sum h)))")
        show ?thesis
        proof (cases e2)
          case (Some a)
          with \<open>vfs_w v = Some wr\<close> small Opens f1 None rl r m show ?thesis
            by (auto simp: writeFile_def)
        next
          case n2: None
          with \<open>vfs_w v = Some wr\<close> small Opens f1 None rl f3 r m show ?thesis
            by (auto simp: writeFile_def)
        qed
      qed
    qed
  qed
qed

lemma maxSize_sless: "maxSize <s sz \<longleftrightarrow> 2147483647 < sint sz"
  by (simp add: word_sless_alt maxSize_def)

lemma adler32_hi: "adler32 [104, 105] = 20644050"
proof -
  have a: "adler_A [104, 105] = 210" by (simp add: adler_A_def byte_sum_def)
  have b: "adler_B [104, 105] = 315" by (simp add: adler_B_def byte_sum_def)
  show ?thesis by (simp add: adler32_def a b)
qed

lemma version_hi: "version_of [104, 105] = ''013b00d2''"
proof -
  note c = adler32_hi
  have d: "be32 20644050 = [1, 59, 0, 210]" by (simp add: be32_def)
  have e: "Sprintf_x [1, 59, 0, 210] = ''013b00d2''"
    by (simp add: Sprintf_x_def hex_byte_def hexdigit_def)
  show ?thesis by (simp only: version_of_def Sprintf_x_be32[symmetric] c d e)
qed

lemma version_empty: "version_of [] = ''00000001''"
proof -
  have c: "adler32 [] = 1" by (simp add: adler32_def adler_A_def adler_B_def byte_sum_def)
  have d: "be32 1 = [0, 0, 0, 1]" by (simp add: be32_def)
  have e: "Sprintf_x [0, 0, 0, 1] = ''00000001''"
    by (simp add: Sprintf_x_def hex_byte_def hexdigit_def)
  show ?thesis by (simp only: version_of_def Sprintf_x_be32[symmetric] c d e)
qed

lemma out_vfs_w: "vfs_w out_vfs = Some \<lparr>written = [], faults = []\<rparr>"
  by (simp add: out_vfs_def)

text \<open>
  C7. When a run that writes (\<open>v.w\<close> is not nil) encodes a source file without error,
  the version is the Adler-32 checksum of the bytes the reads delivered, in their order,
  as eight lower-case hexadecimal digits, however the reads cut the bytes into chunks:
  it is the numeral \<open>version_of\<close> of the checksum in closed form, and read as a
  hexadecimal numeral it denotes that checksum. So two encodings of equal byte sequences
  give equal versions, whatever the file system, the target, the declared size and the
  state of the writer.
\<close>

theorem version_is_adler32:
  assumes "vfs_w v = Some wr" and "writeFile fs v target src sz = (v', ver, None)"
  shows "(\<exists>reads. os_Open fs src = Opens reads \<and> ReadFails \<notin> set reads
                 \<and> ver = version_of (file_bytes reads)
                 \<and> hex_value ver = adler32 (file_bytes reads))
       \<and> length ver = 8 \<and> set ver \<subseteq> lower_hex
       \<and> (\<forall>fs2 v2 wr2 target2 src2 sz2 v2' ver2 reads reads2.
             vfs_w v2 = Some wr2 \<and> writeFile fs2 v2 target2 src2 sz2 = (v2', ver2, None)
             \<and> os_Open fs src = Opens reads \<and> os_Open fs2 src2 = Opens reads2
             \<and> file_bytes reads2 = file_bytes reads \<longrightarrow> ver2 = ver)"
proof -
  from writeFile_ok[OF assms] obtain reads where
    o: "os_Open fs src = Opens reads" and nf: "ReadFails \<notin> set reads"
    and ver: "ver = version_of (file_bytes reads)" by blast
  have shape: "length ver = 8 \<and> set ver \<subseteq> lower_hex"
    unfolding ver by (rule version_of_shape)
  have val: "hex_value ver = adler32 (file_bytes reads)"
    unfolding ver by (rule version_value)
  have det: "ver2 = ver"
    if "vfs_w v2 = Some wr2" and "writeFile fs2 v2 target2 src2 sz2 = (v2', ver2, None)"
      and "os_Open fs src = Opens rs" and "os_Open fs2 src2 = Opens reads2"
      and "file_bytes reads2 = file_bytes rs"
    for fs2 v2 wr2 target2 src2 sz2 v2' ver2 rs reads2
  proof -
    from writeFile_ok[OF that(1) that(2)] that(4)
    have "ver2 = version_of (file_bytes reads2)" by auto
    moreover from that(3) o have "rs = reads" by simp
    ultimately show ?thesis using ver that(5) by simp
  qed
  from o nf ver val shape det show ?thesis by blast
qed

text \<open>
  Witness for C7: the two bytes of Scenario A, delivered by two reads and by one; their
  checksum is 20644050, which the version denotes.
\<close>

theorem version_is_adler32_witness:
  "(\<exists>v'. writeFile example_fs out_vfs ''/out/x.txt'' ''a/x.txt'' 2 = (v', ''013b00d2'', None))
   \<and> (\<exists>v'. writeFile example_fs out_vfs ''/out/x.txt'' ''b/x.txt'' 2 = (v', ''013b00d2'', None))
   \<and> adler32 [104, 105] = 20644050 \<and> hex_value ''013b00d2'' = 20644050"
proof -
  have small: "\<not> maxSize <s (2 :: int64)" by (simp add: maxSize_sless)
  have oa: "os_Open example_fs ''a/x.txt'' = Opens (map Chunk [[104], [105]])"
    and ob: "os_Open example_fs ''b/x.txt'' = Opens (map Chunk [[104, 105]])"
    by (simp_all add: example_fs_def)
  from writeFile_total[OF out_vfs_w _ small oa, of "''/out/x.txt''"]
  obtain va vera where ra: "writeFile example_fs out_vfs ''/out/x.txt'' ''a/x.txt'' 2 = (va, vera, None)"
    by auto
  from writeFile_total[OF out_vfs_w _ small ob, of "''/out/x.txt''"]
  obtain vb verb where rb: "writeFile example_fs out_vfs ''/out/x.txt'' ''b/x.txt'' 2 = (vb, verb, None)"
    by auto
  from version_is_adler32[OF out_vfs_w ra] oa
  have a: "vera = version_of [104, 105]" and h: "hex_value vera = adler32 [104, 105]" by auto
  from version_is_adler32[OF out_vfs_w rb] ob
  have b: "verb = version_of [104, 105]" by auto
  from a h have "hex_value ''013b00d2'' = 20644050" by (simp add: version_hi adler32_hi)
  with a b ra rb show ?thesis by (simp add: version_hi adler32_hi)
qed

text \<open>
  C5, as amended. In a run that writes (\<open>v.w\<close> is not nil), \<open>writeFile\<close> rejects a
  declared size above \<open>maxSize = 2^31 - 1\<close> with the state unchanged: nothing opened,
  nothing read, nothing written. A declared size of at most \<open>maxSize\<close> is never rejected
  for its size: the file is opened next, and with a writer that does not fail and reads
  that do not fail the call returns the version without error. In a run without a
  writer \<open>writeFile\<close> returns the empty version and no error before it looks at the size.
\<close>

theorem size_checked_before_io:
  "(vfs_w v = None \<longrightarrow> writeFile fs v target src sz = (v, [], None))
   \<and> (vfs_w v \<noteq> None \<and> maxSize <s sz \<longrightarrow>
        writeFile fs v target src sz = (v, [], Some MaxSizeExceeded))
   \<and> (vfs_w v \<noteq> None \<and> \<not> maxSize <s sz \<longrightarrow>
        snd (snd (writeFile fs v target src sz)) \<noteq> Some MaxSizeExceeded
        \<and> (\<exists>more. vfs_trace (fst (writeFile fs v target src sz)) = vfs_trace v @ OsOpen src # more))
   \<and> (maxSize <s sz \<longleftrightarrow> 2147483647 < sint sz)
   \<and> (\<forall>wr cs. vfs_w v = Some wr \<and> faults wr = [] \<and> \<not> maxSize <s sz
          \<and> os_Open fs src = Opens (map Chunk cs) \<longrightarrow>
        (\<exists>v'. writeFile fs v target src sz = (v', version_of (concat cs), None)))"
proof (intro conjI impI allI)
  assume "vfs_w v = None"
  then show "writeFile fs v target src sz = (v, [], None)" by (rule writeFile_dry)
next
  assume "vfs_w v \<noteq> None \<and> maxSize <s sz"
  then show "writeFile fs v target src sz = (v, [], Some MaxSizeExceeded)"
    using writeFile_too_big[of v _ sz fs target src] by auto
next
  assume a: "vfs_w v \<noteq> None \<and> \<not> maxSize <s sz"
  then obtain wr where w: "vfs_w v = Some wr" by auto
  from writeFile_small[OF w, of sz fs target src] a
  show "snd (snd (writeFile fs v target src sz)) \<noteq> Some MaxSizeExceeded" by simp
  from writeFile_small[OF w, of sz fs target src] a
  show "\<exists>more. vfs_trace (fst (writeFile fs v target src sz)) = vfs_trace v @ OsOpen src # more"
    by simp
next
  show "maxSize <s sz \<longleftrightarrow> 2147483647 < sint sz" by (rule maxSize_sless)
next
  fix wr cs
  assume "vfs_w v = Some wr \<and> faults wr = [] \<and> \<not> maxSize <s sz
          \<and> os_Open fs src = Opens (map Chunk cs)"
  then show "\<exists>v'. writeFile fs v target src sz = (v', version_of (concat cs), None)"
    using writeFile_total[of v wr sz fs src cs target] by blast
qed

text \<open>
  Witness for C5 as amended: with a writer, a declared size of \<open>2^31\<close> is rejected with
  the state unchanged and one of \<open>2^31 - 1\<close> is encoded.
\<close>

theorem size_checked_before_io_witness:
  "vfs_w out_vfs \<noteq> None \<and> maxSize <s 2147483648 \<and> \<not> maxSize <s 2147483647
   \<and> writeFile example_fs out_vfs ''/docs/big.bin'' ''big.bin'' 2147483648 =
        (out_vfs, [], Some MaxSizeExceeded)
   \<and> (\<exists>v'. writeFile example_fs out_vfs ''/docs/max.bin'' ''max.bin'' 2147483647 =
        (v', ''013b00d2'', None))"
proof -
  have w: "vfs_w out_vfs \<noteq> None" by (simp add: out_vfs_w)
  have big: "maxSize <s 2147483648" and small: "\<not> maxSize <s 2147483647"
    by (simp_all add: maxSize_sless)
  have o: "os_Open example_fs ''max.bin'' = Opens (map Chunk [[104, 105]])"
    by (simp add: example_fs_def)
  note t = size_checked_before_io[of out_vfs example_fs]
  have 1: "writeFile example_fs out_vfs ''/docs/big.bin'' ''big.bin'' 2147483648 =
        (out_vfs, [], Some MaxSizeExceeded)"
    using t[of "''/docs/big.bin''" "''big.bin''" 2147483648] w big by blast
  have "\<exists>v'. writeFile example_fs out_vfs ''/docs/max.bin'' ''max.bin'' 2147483647 =
        (v', version_of (concat [[104, 105]]), None)"
    by (rule t[of "''/docs/max.bin''" "''max.bin''" 2147483647, THEN conjunct2, THEN conjunct2,
              THEN conjunct2, THEN conjunct2, rule_format,
              of "\<lparr>written = [], faults = []\<rparr>" "[[104, 105]]"])
       (simp add: out_vfs_w small o)
  then have 2: "\<exists>v'. writeFile example_fs out_vfs ''/docs/max.bin'' ''max.bin'' 2147483647 =
        (v', ''013b00d2'', None)"
    by (simp add: version_hi)
  from w big small 1 2 show ?thesis by blast
qed

subsection \<open>The registry\<close>

lemma Walk_invariant:
  "(\<And>p i e s. P s \<Longrightarrow> case_sum Q P (fn p i e s)) \<Longrightarrow> P s \<Longrightarrow> case_sum Q P (Walk fn p n s)"
  "(\<And>p i e s. P s \<Longrightarrow> case_sum Q P (fn p i e s)) \<Longrightarrow> P s
     \<Longrightarrow> case_sum Q P (walk_names fn p es s)"
proof (induction fn p n s and fn p es s rule: Walk_walk_names.induct)
  case (1 fn p entries s)
  note step = "1.prems"(1)
  show ?case
  proof (cases "fn p (info_of (Dir entries)) False s")
    case (Inl x)
    from step[OF "1.prems"(2), of p "info_of (Dir entries)" False] Inl
    show ?thesis by simp
  next
    case (Inr s')
    from step[OF "1.prems"(2), of p "info_of (Dir entries)" False] Inr
    have "P s'" by simp
    from "1.IH"[OF Inr step this] Inr show ?thesis by simp
  qed
next
  case (2 fn p s)
  then show ?case by simp
next
  case (3 fn p sz s)
  then show ?case by simp
next
  case (4 fn p s)
  then show ?case by simp
next
  case (5 fn p s)
  then show ?case by simp
next
  case (6 fn p s)
  then show ?case by simp
next
  case (7 fn p name child rest s)
  note step = "7.prems"(1)
  show ?case
  proof (cases "Walk fn (Join [p, name]) child s")
    case (Inl x)
    from "7.IH"(1)[OF step "7.prems"(2)] Inl show ?thesis by simp
  next
    case (Inr s')
    from "7.IH"(1)[OF step "7.prems"(2)] Inr have "P s'" by simp
    from "7.IH"(2)[OF Inr step this] Inr show ?thesis by simp
  qed
qed

lemma targets_emit_mapped: "targets (emit (PrintMapped p t) v) = targets v @ [t]"
  by (simp add: targets_def emit_def mapped_append)

lemma targets_emit_skip:
  "targets (emit (PrintSkipMapping p) v) = targets v"
  "targets (emit (PrintSkipSource p) v) = targets v"
  by (simp_all add: targets_def emit_def mapped_append)

lemma visit_cases:
  "visit fs targetDir src base p info err v =
     (if err then Inl (CouldNotVisit p, v)
      else case info of
        None \<Rightarrow> Inl (NilInfo p, v)
      | Some i \<Rightarrow>
          if \<not> IsRegular i then Inr v
          else case Rel src p of
            None \<Rightarrow> Inl (CouldNotRel src p, v)
          | Some rel \<Rightarrow>
              if vfs_processed v (Join [targetDir, base, ToSlash rel]) \<noteq> None
              then Inl (TargetAlreadyExists (Join [targetDir, base, ToSlash rel]), v)
              else
                (case writeFile fs (emit (PrintMapped p (Join [targetDir, base, ToSlash rel])) v)
                        (Join [targetDir, base, ToSlash rel]) p (info_Size i) of
                   (v', ver, Some e) \<Rightarrow> Inl (CouldNotWrite (Join [targetDir, base, ToSlash rel]) e, v')
                 | (v', ver, None) \<Rightarrow>
                     Inr (v'\<lparr>vfs_processed := (vfs_processed v')(Join [targetDir, base, ToSlash rel] \<mapsto>
                            \<lparr>file_path = Join [targetDir, base, ToSlash rel],
                             file_size = info_Size i, file_version = ver\<rparr>)\<rparr>)))"
  by (simp add: visit_def Let_def split: option.splits)

lemma visit_skip:
  "err \<or> info = None \<or> (\<exists>i. info = Some i \<and> (\<not> IsRegular i \<or> Rel src p = None)) \<Longrightarrow>
     visit fs targetDir src base p info err v = Inr v
     \<or> (\<exists>x. visit fs targetDir src base p info err v = Inl (x, v)
            \<and> (\<forall>t. x \<noteq> TargetAlreadyExists t))"
  by (auto simp: visit_cases)

lemma visit_collision:
  assumes "\<not> err" and "info = Some i" and "IsRegular i" and "Rel src p = Some rel"
    and "vfs_processed v (Join [targetDir, base, ToSlash rel]) \<noteq> None"
  shows "visit fs targetDir src base p info err v =
           Inl (TargetAlreadyExists (Join [targetDir, base, ToSlash rel]), v)"
  using assms by (simp add: visit_cases)

lemma visit_register:
  assumes "\<not> err" and "info = Some i" and "IsRegular i" and "Rel src p = Some rel"
    and "vfs_processed v (Join [targetDir, base, ToSlash rel]) = None"
    and "writeFile fs (emit (PrintMapped p (Join [targetDir, base, ToSlash rel])) v)
           (Join [targetDir, base, ToSlash rel]) p (info_Size i) = (v', ver, e)"
  shows "visit fs targetDir src base p info err v =
           (case e of
              Some a \<Rightarrow> Inl (CouldNotWrite (Join [targetDir, base, ToSlash rel]) a, v')
            | None \<Rightarrow>
                Inr (v'\<lparr>vfs_processed := (vfs_processed v')(Join [targetDir, base, ToSlash rel] \<mapsto>
                       \<lparr>file_path = Join [targetDir, base, ToSlash rel],
                        file_size = info_Size i, file_version = ver\<rparr>)\<rparr>))"
  using assms by (simp add: visit_cases split: option.splits)

lemma visit_reg_inv:
  assumes inv: "reg_inv v"
  shows "case_sum exit_inv reg_inv (visit fs targetDir src base p info err v)"
proof (cases "err \<or> info = None \<or> (\<exists>i. info = Some i \<and> (\<not> IsRegular i \<or> Rel src p = None))")
  case True
  from visit_skip[OF True, of fs targetDir base v]
  show ?thesis using inv by (auto simp: reg_inv_def exit_inv_def)
next
  case False
  then obtain i rel where ne: "\<not> err" and i: "info = Some i" and reg: "IsRegular i"
    and rel: "Rel src p = Some rel" by auto
  let ?t = "Join [targetDir, base, ToSlash rel]"
  show ?thesis
  proof (cases "vfs_processed v ?t")
    case (Some r)
    then have "vfs_processed v ?t \<noteq> None" by simp
    from visit_collision[OF ne i reg rel this, of fs]
    show ?thesis using inv Some by (auto simp: reg_inv_def exit_inv_def)
  next
    case None
    let ?v0 = "emit (PrintMapped p ?t) v"
    obtain v' ver e where wf: "writeFile fs ?v0 ?t p (info_Size i) = (v', ver, e)"
      by (cases "writeFile fs ?v0 ?t p (info_Size i)")
    from writeFile_frame[OF wf]
    have pr: "vfs_processed v' = vfs_processed v" and tg: "targets v' = targets v @ [?t]"
      by (simp_all add: targets_def emit_def mapped_append)
    have fresh: "?t \<notin> set (targets v)" using inv None by (auto simp: reg_inv_def)
    have d: "distinct (targets v')" using inv fresh tg by (simp add: reg_inv_def)
    note vr = visit_register[OF ne i reg rel None wf]
    show ?thesis
    proof (cases e)
      case (Some a)
      have "exit_inv (CouldNotWrite ?t a, v')"
        using d pr tg inv by (auto simp: exit_inv_def reg_inv_def)
      then show ?thesis using vr Some by simp
    next
      case n: None
      let ?v2 = "v'\<lparr>vfs_processed := (vfs_processed v')(?t \<mapsto>
                    \<lparr>file_path = ?t, file_size = info_Size i, file_version = ver\<rparr>)\<rparr>"
      have "targets ?v2 = targets v'" by (simp add: targets_def)
      then have "reg_inv ?v2"
        using d pr tg inv by (auto simp: reg_inv_def)
      then show ?thesis using vr n by simp
    qed
  qed
qed

lemma vfs_walk_reg_inv:
  "reg_inv v \<Longrightarrow> case_sum exit_inv reg_inv (vfs_walk fs v targetDir src)"
  unfolding vfs_walk_def
  by (rule Walk_invariant(1)[where P = reg_inv and Q = exit_inv]) (rule visit_reg_inv)

lemma reg_inv_emit_skip:
  "reg_inv v \<Longrightarrow> reg_inv (emit (PrintSkipSource s) v)"
  "reg_inv v \<Longrightarrow> reg_inv (emit (PrintSkipMapping s) v)"
  by (simp_all add: reg_inv_def targets_emit_skip) (simp_all add: emit_def)

lemma reg_inv_exit: "reg_inv v \<Longrightarrow> (\<forall>t. x \<noteq> TargetAlreadyExists t) \<Longrightarrow> exit_inv (x, v)"
  by (simp add: reg_inv_def exit_inv_def)

lemma gen_sources_reg_inv:
  "reg_inv v \<Longrightarrow> case_sum exit_inv reg_inv (gen_sources fs targetDir ss v)"
proof (induction ss arbitrary: v)
  case Nil
  then show ?case by simp
next
  case (Cons s ss)
  show ?case
  proof (cases "os_Stat fs s")
    case None
    then show ?thesis using reg_inv_exit[OF Cons.prems, of "StatError s"] by simp
  next
    case (Some m)
    show ?thesis
    proof (cases "m = ModeRegular \<or> m = ModeDir")
      case False
      with Some Cons.IH[OF reg_inv_emit_skip(1)[OF Cons.prems]] show ?thesis by simp
    next
      case True
      show ?thesis
      proof (cases "vfs_walk fs v targetDir s")
        case (Inl x)
        with vfs_walk_reg_inv[OF Cons.prems, of fs targetDir s] Some True show ?thesis by simp
      next
        case (Inr v')
        with vfs_walk_reg_inv[OF Cons.prems, of fs targetDir s] have "reg_inv v'" by simp
        from Cons.IH[OF this] Some True Inr show ?thesis by simp
      qed
    qed
  qed
qed

lemma gen_mappings_reg_inv:
  "reg_inv v \<Longrightarrow> case_sum exit_inv reg_inv (gen_mappings fs ms v)"
proof (induction ms arbitrary: v)
  case Nil
  then show ?case by simp
next
  case (Cons m ms)
  let ?v1 = "if mapping_src m = [] then emit (PrintSkipMapping (mapping_pattern m)) v else v"
  have i1: "reg_inv ?v1" using Cons.prems reg_inv_emit_skip(2) by simp
  show ?case
  proof (cases "gen_sources fs (mapping_targetDir m) (mapping_src m) ?v1")
    case (Inl x)
    with gen_sources_reg_inv[OF i1, of fs "mapping_targetDir m" "mapping_src m"]
    show ?thesis by simp
  next
    case (Inr v')
    with gen_sources_reg_inv[OF i1, of fs "mapping_targetDir m" "mapping_src m"]
    have "reg_inv v'" by simp
    from Cons.IH[OF this] Inr show ?thesis by simp
  qed
qed

lemma Execute_err: "Execute wr ns pkg = (wr', e) \<Longrightarrow> e = None \<or> e = Some WriteError"
proof (induction ns arbitrary: wr)
  case Nil
  then show ?case by simp
next
  case (Cons n ns)
  obtain w1 e1 where f: "Fprintf wr (case n of Text s \<Rightarrow> s | Field_pkgName \<Rightarrow> pkg) = (w1, e1)"
    by (cases "Fprintf wr (case n of Text s \<Rightarrow> s | Field_pkgName \<Rightarrow> pkg)")
  show ?case
  proof (cases e1)
    case None
    with f Cons.prems have "Execute w1 ns pkg = (wr', e)" by simp
    then show ?thesis by (rule Cons.IH)
  next
    case (Some a)
    with f Cons.prems have "e = e1" by simp
    with Fprintf_err[OF f] show ?thesis by simp
  qed
qed

lemma writeHeader_frame:
  assumes "writeHeader runtime v = (v', e)"
  shows "vfs_processed v' = vfs_processed v \<and> vfs_trace v' = vfs_trace v
     \<and> vfs_mappings v' = vfs_mappings v \<and> (e = None \<or> e = Some WriteError)"
proof (cases "vfs_w v")
  case None
  with assms show ?thesis by (simp add: writeHeader_def)
next
  case (Some wr)
  obtain wr' err where x: "Execute wr (tmplHeader runtime) (vfs_pkgName v) = (wr', err)"
    by (cases "Execute wr (tmplHeader runtime) (vfs_pkgName v)")
  from assms Some x have "v' = v\<lparr>vfs_w := Some wr'\<rparr>" and "e = err"
    by (simp_all add: writeHeader_def)
  with Execute_err[OF x] show ?thesis by simp
qed

lemma writeFooter_frame:
  "writeFooter v = (v', e) \<Longrightarrow>
     vfs_processed v' = vfs_processed v \<and> vfs_trace v' = vfs_trace v
     \<and> (e = None \<or> e = Some WriteError)"
  by (auto simp: writeFooter_def Fprintf_def split: option.splits list.splits if_splits)

lemma Generate_reg_inv:
  assumes fresh: "mapped (vfs_trace v) = []"
  shows "case_sum exit_inv reg_inv (Generate fs runtime v)"
proof -
  let ?v0 = "v\<lparr>vfs_processed := Map.empty\<rparr>"
  have r0: "reg_inv ?v0" using fresh by (simp add: reg_inv_def targets_def)
  obtain v1 e1 where h: "writeHeader runtime ?v0 = (v1, e1)" by (cases "writeHeader runtime ?v0")
  from writeHeader_frame[OF h] r0 have r1: "reg_inv v1"
    by (simp add: reg_inv_def targets_def)
  show ?thesis
  proof (cases e1)
    case (Some a)
    with h reg_inv_exit[OF r1, of "CouldNotWriteHeader a"] show ?thesis
      by (simp add: Generate_def)
  next
    case None
    show ?thesis
    proof (cases "gen_mappings fs (vfs_mappings v1) v1")
      case (Inl x)
      with gen_mappings_reg_inv[OF r1, of fs "vfs_mappings v1"] h None show ?thesis
        by (simp add: Generate_def)
    next
      case (Inr v2)
      with gen_mappings_reg_inv[OF r1, of fs "vfs_mappings v1"] have r2: "reg_inv v2" by simp
      obtain v3 e3 where f: "writeFooter v2 = (v3, e3)" by (cases "writeFooter v2")
      from writeFooter_frame[OF f] r2 have r3: "reg_inv v3"
        by (simp add: reg_inv_def targets_def)
      show ?thesis
      proof (cases e3)
        case (Some a)
        with h None Inr f reg_inv_exit[OF r3, of "CouldNotWriteFooter a"] show ?thesis
          by (simp add: Generate_def)
      next
        case n3: None
        with h None Inr f r3 show ?thesis by (simp add: Generate_def)
      qed
    qed
  qed
qed

lemma distinct_snd_unique:
  "distinct (map snd xs) \<Longrightarrow> (a, k) \<in> set xs \<Longrightarrow> (b, k) \<in> set xs \<Longrightarrow> a = b"
  by (induction xs) (auto simp: image_iff)

lemma one_source:
  assumes "reg_inv v" and "key \<in> dom (vfs_processed v)"
  shows "\<exists>!p. (p, key) \<in> set (mapped (vfs_trace v))"
proof -
  from assms have d: "distinct (map snd (mapped (vfs_trace v)))"
    and k: "key \<in> snd ` set (mapped (vfs_trace v))"
    by (auto simp: reg_inv_def targets_def)
  from k obtain p where p: "(p, key) \<in> set (mapped (vfs_trace v))" by auto
  moreover have "q = p" if "(q, key) \<in> set (mapped (vfs_trace v))" for q
    using distinct_snd_unique[OF d that p] .
  ultimately show ?thesis by blast
qed

lemma base_x: "Base ''a/x.txt'' = ''x.txt''" "Base ''b/x.txt'' = ''x.txt''"
  by code_simp+

lemma rel_x: "Rel ''a/x.txt'' ''a/x.txt'' = Some ''.''" "Rel ''b/x.txt'' ''b/x.txt'' = Some ''.''"
  by code_simp+

lemma join_x: "Join [''/out'', ''x.txt'', ''.''] = ''/out/x.txt''"
  by code_simp

lemma small2: "\<not> maxSize <s (2 :: int64)"
  by (simp add: maxSize_sless)

lemma base_big: "Base ''big.bin'' = ''big.bin''" by code_simp
lemma rel_big: "Rel ''big.bin'' ''big.bin'' = Some ''.''" by code_simp
lemma join_big: "Join [''/docs'', ''big.bin'', ''.''] = ''/docs/big.bin''" by code_simp

text \<open>
  C5 as stated fails in a run without a writer: a source file that declares \<open>2^31\<close>
  bytes is not rejected, and the walk registers it with that size and an empty version.
\<close>

theorem dry_run_registers_oversized:
  "maxSize <s 2147483648
   \<and> writeFile example_fs dry_vfs ''/docs/big.bin'' ''big.bin'' 2147483648 = (dry_vfs, [], None)
   \<and> registered (vfs_walk example_fs dry_vfs ''/docs'' ''big.bin'') ''/docs/big.bin'' =
        Some \<lparr>file_path = ''/docs/big.bin'', file_size = 2147483648, file_version = []\<rparr>"
proof -
  have 1: "maxSize <s 2147483648" by (simp add: maxSize_sless)
  have 2: "writeFile example_fs dry_vfs ''/docs/big.bin'' ''big.bin'' 2147483648 = (dry_vfs, [], None)"
    by (simp add: writeFile_def dry_vfs_def)
  have 3: "registered (vfs_walk example_fs dry_vfs ''/docs'' ''big.bin'') ''/docs/big.bin'' =
        Some \<lparr>file_path = ''/docs/big.bin'', file_size = 2147483648, file_version = []\<rparr>"
    by (simp add: vfs_walk_def example_fs_def visit_def info_of_def dry_vfs_def writeFile_def
          emit_def registered_def ToSlash_def Let_def base_big rel_big join_big)
  from 1 2 3 show ?thesis by simp
qed

text \<open>The loops of the generator take the steps of the run one after the other.\<close>

lemma run_steps_append:
  "run_steps fs (a @ b) v = (case run_steps fs a v of Inl x \<Rightarrow> Inl x | Inr v' \<Rightarrow> run_steps fs b v')"
  by (induction a arbitrary: v) (simp_all split: sum.splits)

lemma Walk_steps:
  "fn = visit fs targetDir src (Base src) \<Longrightarrow>
     Walk fn p n v = run_steps fs (map (\<lambda>(p, i, e). Entry targetDir src p i e) (entries_of p n)) v"
  "fn = visit fs targetDir src (Base src) \<Longrightarrow>
     walk_names fn p es v =
       run_steps fs (map (\<lambda>(p, i, e). Entry targetDir src p i e) (entries_below p es)) v"
proof (induction fn p n v and fn p es v rule: Walk_walk_names.induct)
  case (1 fn p entries s)
  show ?case
  proof (cases "fn p (info_of (Dir entries)) False s")
    case (Inl x)
    with "1.prems" show ?thesis by (simp add: do_step_def)
  next
    case (Inr s')
    from "1.IH"[OF Inr "1.prems"] Inr "1.prems" show ?thesis by (simp add: do_step_def)
  qed
next
  case (2 fn p s)
  then show ?case by (simp add: do_step_def split: sum.splits)
next
  case (3 fn p sz s)
  then show ?case by (simp add: do_step_def split: sum.splits)
next
  case (4 fn p s)
  then show ?case by (simp add: do_step_def split: sum.splits)
next
  case (5 fn p s)
  then show ?case by (simp add: do_step_def split: sum.splits)
next
  case (6 fn p s)
  then show ?case by simp
next
  case (7 fn p name child rest s)
  let ?r = "run_steps fs (map (\<lambda>(p, i, e). Entry targetDir src p i e)
                            (entries_of (Join [p, name]) child)) s"
  have w: "Walk fn (Join [p, name]) child s = ?r"
    by (rule "7.IH"(1)[OF "7.prems"])
  show ?case
  proof (cases "Walk fn (Join [p, name]) child s")
    case (Inl x)
    with w have r: "?r = Inl x" by simp
    from Inl show ?thesis by (simp add: run_steps_append r)
  next
    case (Inr s')
    with w have r: "?r = Inr s'" by simp
    from "7.IH"(2)[OF Inr "7.prems"] Inr
    show ?thesis by (simp add: run_steps_append r)
  qed
qed

lemma gen_sources_steps:
  "gen_sources fs targetDir ss v = run_steps fs (concat (map (steps_of_source fs targetDir) ss)) v"
proof (induction ss arbitrary: v)
  case Nil
  show ?case by simp
next
  case (Cons s ss)
  show ?case
  proof (cases "os_Stat fs s")
    case None
    then show ?thesis by (simp add: steps_of_source_def do_step_def)
  next
    case (Some m)
    show ?thesis
    proof (cases "m = ModeRegular \<or> m = ModeDir")
      case True
      have w: "vfs_walk fs v targetDir s =
          run_steps fs (map (\<lambda>(p, i, e). Entry targetDir s p i e) (entries_of s (os_Tree fs s))) v"
        unfolding vfs_walk_def by (rule Walk_steps(1)) simp
      from Some True have st: "steps_of_source fs targetDir s =
          map (\<lambda>(p, i, e). Entry targetDir s p i e) (entries_of s (os_Tree fs s))"
        by (simp add: steps_of_source_def)
      have "gen_sources fs targetDir (s # ss) v =
          (case vfs_walk fs v targetDir s of Inl x \<Rightarrow> Inl x | Inr v' \<Rightarrow> gen_sources fs targetDir ss v')"
        using Some True by auto
      also have "\<dots> = run_steps fs (steps_of_source fs targetDir s
                          @ concat (map (steps_of_source fs targetDir) ss)) v"
        by (simp add: run_steps_append w st Cons.IH cong: sum.case_cong)
      finally show ?thesis by simp
    next
      case False
      with Some have st: "steps_of_source fs targetDir s = [SkipSource s]"
        by (simp add: steps_of_source_def)
      from Some False have "gen_sources fs targetDir (s # ss) v =
          gen_sources fs targetDir ss (emit (PrintSkipSource s) v)" by simp
      then show ?thesis by (simp add: st Cons.IH do_step_def)
    qed
  qed
qed

lemma gen_mappings_steps: "gen_mappings fs ms v = run_steps fs (steps_of fs ms) v"
proof (induction ms arbitrary: v)
  case Nil
  show ?case by (simp add: steps_of_def)
next
  case (Cons m ms)
  have s: "steps_of fs (m # ms) = steps_of_mapping fs m @ steps_of fs ms"
    by (simp add: steps_of_def)
  have g: "gen_sources fs (mapping_targetDir m) (mapping_src m)
             (if mapping_src m = [] then emit (PrintSkipMapping (mapping_pattern m)) v else v)
           = run_steps fs (steps_of_mapping fs m) v"
    by (simp add: gen_sources_steps steps_of_mapping_def do_step_def)
  show ?case
    by (simp add: g s run_steps_append Cons.IH cong: sum.case_cong)
qed

lemma Generate_steps:
  "Generate fs runtime v =
     (case writeHeader runtime (v\<lparr>vfs_processed := Map.empty\<rparr>) of
        (v1, Some e) \<Rightarrow> Inl (CouldNotWriteHeader e, v1)
      | (v1, None) \<Rightarrow>
          (case run_steps fs (steps_of fs (vfs_mappings v1)) v1 of
             Inl x \<Rightarrow> Inl x
           | Inr v2 \<Rightarrow>
               (case writeFooter v2 of
                  (v3, Some e) \<Rightarrow> Inl (CouldNotWriteFooter e, v3)
                | (v3, None) \<Rightarrow> Inr v3)))"
  by (simp add: Generate_def gen_mappings_steps split: prod.splits option.splits)

lemma run_steps_stop:
  assumes "run_steps fs pre v = Inr v'" and "do_step fs st v' = Inl x"
  shows "run_steps fs (pre @ st # post) v = Inl x"
  using assms by (simp add: run_steps_append)


lemma paths_e:
  "Base ''x/file.txt'' = ''file.txt''"
  "Rel ''x/file.txt'' ''x/file.txt'' = Some ''.''"
  "Join [''/static/assets/sub'', ''file.txt'', ''.''] = ''/static/assets/sub/file.txt''"
  "Base ''assets'' = ''assets''"
  "Join [''assets'', ''sub''] = ''assets/sub''"
  "Join [''assets/sub'', ''file.txt''] = ''assets/sub/file.txt''"
  "Rel ''assets'' ''assets/sub/file.txt'' = Some ''sub/file.txt''"
  "Join [''/static'', ''assets'', ''sub/file.txt''] = ''/static/assets/sub/file.txt''"
  by code_simp+

text \<open>
  C6. A regular file whose virtual path is already a key of the registry ends the
  process with \<open>target already exists\<close>, in the state the callback was entered in
  (nothing printed, opened or written for it), whatever the file system holds.
  \<open>Generate\<close> is the header, the steps of the run taken one after the other up to the
  first that ends the process, and the footer. So wherever in the run the colliding file
  comes (any mapping, any source, any depth of a walked directory): when the steps before
  it have been taken and its virtual path is a key of the registry they leave,
  \<open>Generate\<close> ends with \<open>target already exists\<close> in exactly that state, and none of the
  steps after it is taken. In a run that starts with no registration behind it, no
  virtual path is registered twice: after \<open>Generate\<close> the keys of the registry are
  exactly the virtual paths of the lines \<open>p -> target\<close>, each on one line only, so each
  key has exactly one source file; and a run that ends on a collision names a key the
  registry holds.
\<close>

theorem collision_is_fatal:
  "(IsRegular i \<and> Rel src p = Some rel
      \<and> vfs_processed v (Join [targetDir, base, ToSlash rel]) \<noteq> None \<longrightarrow>
      visit fs targetDir src base p (Some i) False v =
        Inl (TargetAlreadyExists (Join [targetDir, base, ToSlash rel]), v))
   \<and> Generate fs runtime v =
       (case writeHeader runtime (v\<lparr>vfs_processed := Map.empty\<rparr>) of
          (v1, Some e) \<Rightarrow> Inl (CouldNotWriteHeader e, v1)
        | (v1, None) \<Rightarrow>
            (case run_steps fs (steps_of fs (vfs_mappings v1)) v1 of
               Inl x \<Rightarrow> Inl x
             | Inr v2 \<Rightarrow>
                 (case writeFooter v2 of
                    (v3, Some e) \<Rightarrow> Inl (CouldNotWriteFooter e, v3)
                  | (v3, None) \<Rightarrow> Inr v3)))
   \<and> (writeHeader runtime (v\<lparr>vfs_processed := Map.empty\<rparr>) = (v1, None)
        \<and> steps_of fs (vfs_mappings v1) = pre @ Entry targetDir src p (Some i) False # post
        \<and> run_steps fs pre v1 = Inr v2
        \<and> IsRegular i \<and> Rel src p = Some rel
        \<and> vfs_processed v2 (Join [targetDir, Base src, ToSlash rel]) \<noteq> None \<longrightarrow>
        Generate fs runtime v =
          Inl (TargetAlreadyExists (Join [targetDir, Base src, ToSlash rel]), v2))
   \<and> (mapped (vfs_trace v) = [] \<longrightarrow>
        (\<forall>v'. Generate fs runtime v = Inr v' \<longrightarrow>
           distinct (targets v') \<and> set (targets v') = dom (vfs_processed v')
           \<and> (\<forall>key \<in> dom (vfs_processed v'). \<exists>!p. (p, key) \<in> set (mapped (vfs_trace v'))))
        \<and> (\<forall>x v'. Generate fs runtime v = Inl (x, v') \<longrightarrow>
             distinct (targets v') \<and> dom (vfs_processed v') \<subseteq> set (targets v')
             \<and> (\<forall>t. x = TargetAlreadyExists t \<longrightarrow> t \<in> dom (vfs_processed v'))))"
proof (intro conjI impI allI)
  assume "IsRegular i \<and> Rel src p = Some rel
      \<and> vfs_processed v (Join [targetDir, base, ToSlash rel]) \<noteq> None"
  then show "visit fs targetDir src base p (Some i) False v =
        Inl (TargetAlreadyExists (Join [targetDir, base, ToSlash rel]), v)"
    using visit_collision[of False "Some i" i src p rel v targetDir base fs] by simp
next
  show "Generate fs runtime v =
       (case writeHeader runtime (v\<lparr>vfs_processed := Map.empty\<rparr>) of
          (v1, Some e) \<Rightarrow> Inl (CouldNotWriteHeader e, v1)
        | (v1, None) \<Rightarrow>
            (case run_steps fs (steps_of fs (vfs_mappings v1)) v1 of
               Inl x \<Rightarrow> Inl x
             | Inr v2 \<Rightarrow>
                 (case writeFooter v2 of
                    (v3, Some e) \<Rightarrow> Inl (CouldNotWriteFooter e, v3)
                  | (v3, None) \<Rightarrow> Inr v3)))"
    by (rule Generate_steps)
next
  let ?t = "Join [targetDir, Base src, ToSlash rel]"
  assume a: "writeHeader runtime (v\<lparr>vfs_processed := Map.empty\<rparr>) = (v1, None)
        \<and> steps_of fs (vfs_mappings v1) = pre @ Entry targetDir src p (Some i) False # post
        \<and> run_steps fs pre v1 = Inr v2
        \<and> IsRegular i \<and> Rel src p = Some rel
        \<and> vfs_processed v2 ?t \<noteq> None"
  then have "visit fs targetDir src (Base src) p (Some i) False v2 = Inl (TargetAlreadyExists ?t, v2)"
    using visit_collision[of False "Some i" i src p rel v2 targetDir "Base src" fs] by simp
  then have "do_step fs (Entry targetDir src p (Some i) False) v2 = Inl (TargetAlreadyExists ?t, v2)"
    by (simp add: do_step_def)
  with a have "run_steps fs (steps_of fs (vfs_mappings v1)) v1 = Inl (TargetAlreadyExists ?t, v2)"
    using run_steps_stop[of fs pre v1 v2 "Entry targetDir src p (Some i) False"] by simp
  with a show "Generate fs runtime v = Inl (TargetAlreadyExists ?t, v2)"
    by (simp add: Generate_steps)
next
  fix v'
  assume fresh: "mapped (vfs_trace v) = []" and r: "Generate fs runtime v = Inr v'"
  from Generate_reg_inv[OF fresh, of fs runtime] r have ri: "reg_inv v'" by simp
  then show "distinct (targets v')" and "set (targets v') = dom (vfs_processed v')"
    by (simp_all add: reg_inv_def)
  show "\<forall>key \<in> dom (vfs_processed v'). \<exists>!p. (p, key) \<in> set (mapped (vfs_trace v'))"
    using one_source[OF ri] by blast
next
  fix x v'
  assume fresh: "mapped (vfs_trace v) = []" and r: "Generate fs runtime v = Inl (x, v')"
  from Generate_reg_inv[OF fresh, of fs runtime] r have ei: "exit_inv (x, v')" by simp
  then show "distinct (targets v')" and "dom (vfs_processed v') \<subseteq> set (targets v')"
    by (simp_all add: exit_inv_def)
  fix t assume "x = TargetAlreadyExists t"
  with ei show "t \<in> dom (vfs_processed v')" by (simp add: exit_inv_def)
qed

text \<open>
  Witness for C6: a run in which \<open>assets/sub/file.txt\<close>, found two directories deep in
  the walk of the second mapping's first source, meets the virtual path the first mapping
  registered; the run ends there, before \<open>b.txt\<close>. And Scenario D, in which \<open>a/x.txt\<close>
  and \<open>b/x.txt\<close> both map to \<open>/out/x.txt\<close>; the second registration ends the run.
\<close>

theorem collision_is_fatal_witness:
  "steps_of example_fs scenario_e =
     [Entry ''/static/assets/sub'' ''x/file.txt'' ''x/file.txt''
        (Some \<lparr>IsRegular = True, IsDir = False, info_Size = 2\<rparr>) False,
      Entry ''/static'' ''assets'' ''assets''
        (Some \<lparr>IsRegular = False, IsDir = True, info_Size = 0\<rparr>) False,
      Entry ''/static'' ''assets'' ''assets/sub''
        (Some \<lparr>IsRegular = False, IsDir = True, info_Size = 0\<rparr>) False]
     @ Entry ''/static'' ''assets'' ''assets/sub/file.txt''
        (Some \<lparr>IsRegular = True, IsDir = False, info_Size = 2\<rparr>) False
     # [Entry ''/static'' ''b.txt'' ''b.txt''
        (Some \<lparr>IsRegular = True, IsDir = False, info_Size = 2\<rparr>) False]
   \<and> Generate example_fs ''func Open'' (dry_vfs\<lparr>vfs_mappings := scenario_e\<rparr>) =
       Inl (TargetAlreadyExists ''/static/assets/sub/file.txt'', registered_e)
   \<and> mapped (vfs_trace registered_e) = [(''x/file.txt'', ''/static/assets/sub/file.txt'')]
   \<and> vfs_processed registered_d ''/out/x.txt'' \<noteq> None
   \<and> visit example_fs ''/out'' ''b/x.txt'' ''x.txt'' ''b/x.txt''
        (Some \<lparr>IsRegular = True, IsDir = False, info_Size = 2\<rparr>) False registered_d =
        Inl (TargetAlreadyExists ''/out/x.txt'', registered_d)
   \<and> mapped (vfs_trace (out_vfs\<lparr>vfs_mappings := scenario_d\<rparr>)) = []
   \<and> (\<exists>v'. Generate example_fs ''func Open'' (out_vfs\<lparr>vfs_mappings := scenario_d\<rparr>) =
               Inl (TargetAlreadyExists ''/out/x.txt'', v')
             \<and> distinct (targets v') \<and> ''/out/x.txt'' \<in> dom (vfs_processed v'))"
proof -
  let ?reg = "\<lparr>IsRegular = True, IsDir = False, info_Size = 2\<rparr>"
  let ?dir = "\<lparr>IsRegular = False, IsDir = True, info_Size = 0\<rparr>"
  let ?pre = "[Entry ''/static/assets/sub'' ''x/file.txt'' ''x/file.txt'' (Some ?reg) False,
      Entry ''/static'' ''assets'' ''assets'' (Some ?dir) False,
      Entry ''/static'' ''assets'' ''assets/sub'' (Some ?dir) False]"
  let ?post = "[Entry ''/static'' ''b.txt'' ''b.txt'' (Some ?reg) False]"
  let ?e = "dry_vfs\<lparr>vfs_mappings := scenario_e\<rparr>"
  let ?v = "out_vfs\<lparr>vfs_mappings := scenario_d\<rparr>"
  have st: "steps_of example_fs scenario_e =
      ?pre @ Entry ''/static'' ''assets'' ''assets/sub/file.txt'' (Some ?reg) False # ?post"
    by (simp add: steps_of_def steps_of_mapping_def steps_of_source_def scenario_e_def
          example_fs_def info_of_def paths_e)
  have h: "writeHeader ''func Open'' (?e\<lparr>vfs_processed := Map.empty\<rparr>) = (?e, None)"
    by (simp add: writeHeader_def dry_vfs_def)
  have m: "vfs_mappings ?e = scenario_e" by simp
  have pre: "run_steps example_fs ?pre ?e = Inr registered_e"
    by (simp add: do_step_def visit_def info_of_def dry_vfs_def writeFile_def emit_def
          registered_e_def ToSlash_def Let_def paths_e)
  have k: "vfs_processed registered_e (Join [''/static'', Base ''assets'', ToSlash ''sub/file.txt''])
             \<noteq> None"
    by (simp add: registered_e_def ToSlash_def paths_e)
  from collision_is_fatal[where v = ?e and fs = example_fs and runtime = "''func Open''"
      and ?v1.0 = ?e and pre = ?pre and post = ?post and ?v2.0 = registered_e
      and targetDir = "''/static''" and src = "''assets''" and p = "''assets/sub/file.txt''"
      and i = ?reg and rel = "''sub/file.txt''",
      THEN conjunct2, THEN conjunct2, THEN conjunct1] h st pre k
  have g: "Generate example_fs ''func Open'' ?e =
       Inl (TargetAlreadyExists ''/static/assets/sub/file.txt'', registered_e)"
    by (simp add: paths_e ToSlash_def)
  have tr: "mapped (vfs_trace registered_e) = [(''x/file.txt'', ''/static/assets/sub/file.txt'')]"
    by (simp add: registered_e_def)
  have p: "vfs_processed registered_d ''/out/x.txt'' \<noteq> None"
    by (simp add: registered_d_def)
  have 1: "visit example_fs ''/out'' ''b/x.txt'' ''x.txt'' ''b/x.txt'' (Some ?reg) False registered_d =
        Inl (TargetAlreadyExists ''/out/x.txt'', registered_d)"
    using collision_is_fatal[where i = ?reg and src = "''b/x.txt''" and p = "''b/x.txt''"
        and rel = "''.''" and v = registered_d and targetDir = "''/out''" and base = "''x.txt''"
        and fs = example_fs, THEN conjunct1] p
    by (simp add: rel_x join_x ToSlash_def)
  have fresh: "mapped (vfs_trace ?v) = []" by (simp add: out_vfs_def)
  have run: "map_sum fst (\<lambda>v. ()) (Generate example_fs ''func Open'' ?v)
       = Inl (TargetAlreadyExists ''/out/x.txt'')"
    by (simp add: Generate_def writeHeader_def tmplHeader_def writeFooter_def Fprintf_def out_vfs_def
          scenario_d_def vfs_walk_def example_fs_def visit_def info_of_def writeFile_def emit_def
          ToSlash_def Let_def base_x rel_x join_x small2)
  then obtain v' where d: "Generate example_fs ''func Open'' ?v = Inl (TargetAlreadyExists ''/out/x.txt'', v')"
    by (cases "Generate example_fs ''func Open'' ?v") auto
  from collision_is_fatal[where v = ?v and fs = example_fs and runtime = "''func Open''",
      THEN conjunct2, THEN conjunct2, THEN conjunct2] fresh d
  have "distinct (targets v') \<and> ''/out/x.txt'' \<in> dom (vfs_processed v')" by blast
  with st g tr p 1 fresh d show ?thesis by blast
qed

subsection \<open>Paths\<close>


























declare rel_loop.simps [simp del]



subsection \<open>The virtual paths of a walk\<close>





















end
